theory Spec2Isabelle
  imports Main "HOL-Library.Word"
begin

unbundle bit_operations_syntax

section \<open>Data model\<close>

text \<open>
  SPARK35 runs the HP-35 microcode on an 8-bit microcontroller. Every variable of the
  engine is a \<open>byte\<close>; the sketch keeps them in file-scope variables, which are
  collected here in one record that every operation takes and returns.
  The working registers \<open>a\<close>, \<open>b\<close>, \<open>c\<close>, \<open>d\<close>, \<open>e\<close>, \<open>f\<close>, \<open>m\<close> and the
  temporary \<open>t\<close> are arrays of 16 bytes, the status array \<open>s\<close> has 12 bytes and the
  display buffer \<open>dbuf\<close> has 8. An access outside an array is undefined behaviour in
  C++; the model makes it an error value, one kind of error for each array.
\<close>

type_synonym byte = "8 word"

datatype error = RegIndex | StatusIndex | RomIndex | TableIndex | DigitIndex | BufIndex

definition thenE :: "error + 'a \<Rightarrow> ('a \<Rightarrow> error + 'b) \<Rightarrow> error + 'b" where
  "thenE m k = (case m of Inl e \<Rightarrow> Inl e | Inr x \<Rightarrow> k x)"

datatype reg = RA | RB | RC | RD | RE | RF | RM | RT

record cpu =
  regs :: "reg \<Rightarrow> byte list"
  s_reg :: "byte list"
  p_reg :: byte
  pc :: byte
  ret :: byte
  offset :: byte
  first_d :: byte
  last_d :: byte
  carry :: byte
  prevCarry :: byte
  key_code :: byte
  key_rom :: byte
  display_enable :: bool
  display_update :: bool
  msgnr :: byte
  dbuf :: "byte list"
  brightness :: byte
  key :: byte
  oldkey :: byte
  fg :: byte
  darkscreen :: bool
  memp :: int
  count :: int
  isrun :: bool
  islock :: bool

abbreviation (input) WSIZE :: nat where "WSIZE \<equiv> 14"
abbreviation (input) DIGITS :: nat where "DIGITS \<equiv> 8"
abbreviation (input) KEYS :: nat where "KEYS \<equiv> 16"
abbreviation (input) K_END :: byte where "K_END \<equiv> 0xFF"
abbreviation (input) K_HYP :: byte where "K_HYP \<equiv> 64"
abbreviation (input) K_LIT :: byte where "K_LIT \<equiv> 65"
abbreviation (input) KF :: byte where "KF \<equiv> 1"
abbreviation (input) MSGERROR :: byte where "MSGERROR \<equiv> 1"
abbreviation (input) MSGRUN :: byte where "MSGRUN \<equiv> 2"
abbreviation (input) MSGHYP :: byte where "MSGHYP \<equiv> 3"
abbreviation (input) SEG_MINUS :: byte where "SEG_MINUS \<equiv> 0x40"
abbreviation (input) SEG_DOT :: byte where "SEG_DOT \<equiv> 0x80"
abbreviation (input) SEG_HIGHLINE :: byte where "SEG_HIGHLINE \<equiv> 0x01"
abbreviation (input) SEG_LOWLINE :: byte where "SEG_LOWLINE \<equiv> 0x08"

text \<open>The variables as the sketch initialises them.\<close>

definition power_on :: cpu where
  "power_on = \<lparr> regs = (\<lambda>r. replicate 16 0), s_reg = replicate 12 0, p_reg = 0, pc = 0,
     ret = 0, offset = 0, first_d = 0, last_d = 0, carry = 0, prevCarry = 0,
     key_code = K_END, key_rom = 0, display_enable = True, display_update = True,
     msgnr = 0, dbuf = replicate DIGITS 0, brightness = 2, key = 8, oldkey = 8, fg = 2,
     darkscreen = False, memp = 0, count = 0, isrun = False, islock = False \<rparr>"

section \<open>Constant tables\<close>

text \<open>The seven-segment patterns of the digits 0 to 9.\<close>

definition digit :: "byte list" where
  "digit = [
     63, 6, 91, 79, 102, 109, 125, 7, 127, 111]"

text \<open>The three banners (Error, run, HYP?), eight cells each.\<close>

definition msg :: "byte list" where
  "msg = [
     0, 121, 80, 80, 92, 80, 0, 0, 0, 80, 28, 84, 0, 0, 0, 0, 0, 118, 110, 115,
     128, 83, 0, 0]"

text \<open>The tape of the scripted functions, each script closed by \<open>K_END\<close>.\<close>

definition mem :: "byte list" where
  "mem = [
     62, 30, 12, 62, 62, 11, 30, 22, 46, 62, 11, 38, 44, 43, 11, 11, 11, 255, 12, 43,
     62, 62, 30, 59, 62, 28, 22, 46, 11, 30, 11, 30, 12, 11, 255, 12, 62, 62, 28, 22,
     11, 11, 11, 12, 6, 14, 59, 62, 28, 22, 12, 38, 255, 62, 62, 62, 30, 30, 35, 36,
     52, 30, 59, 12, 28, 35, 18, 30, 54, 2, 28, 22, 14, 12, 62, 30, 59, 27, 38, 2,
     34, 27, 30, 46, 14, 30, 255, 62, 28, 22, 62, 62, 62, 28, 27, 30, 12, 28, 36, 30,
     14, 54, 14, 22, 3, 28, 54, 30, 12, 3, 59, 34, 27, 30, 3, 22, 27, 38, 22, 255,
     12, 27, 38, 59, 62, 62, 30, 11, 11, 11, 54, 46, 62, 62, 56, 22, 59, 11, 22, 11,
     22, 11, 11, 11, 255, 2, 62, 14, 59, 22, 27, 38, 255, 2, 62, 14, 22, 27, 38, 255,
     62, 27, 30, 2, 62, 62, 28, 54, 12, 28, 22, 38, 255, 62, 62, 30, 28, 22, 46, 22,
     3, 255, 62, 62, 30, 28, 54, 46, 22, 3, 255, 62, 62, 28, 22, 12, 59, 62, 28, 22,
     38, 46, 3, 255]"

text \<open>Key number and function layer to key code.\<close>

definition k2c :: "byte list" where
  "k2c = [
     255, 28, 52, 27, 51, 26, 50, 56, 58, 36, 20, 35, 19, 62, 18, 59, 255, 2, 14, 3,
     46, 54, 38, 0, 12, 10, 6, 8, 4, 22, 30, 11, 255, 40, 43, 70, 66, 71, 67, 65,
     255, 44, 42, 64, 68, 34, 69, 255, 255, 74, 72, 77, 75, 255, 255, 255, 255, 255, 73, 255,
     76, 255, 255, 255]"

text \<open>Scripted function to its entry on the tape.\<close>

definition c2m :: "byte list" where
  "c2m = [
     0, 18, 35, 53, 87, 120, 145, 153, 160, 173, 182, 191]"

text \<open>The microcode: the high byte of each instruction, then its low byte.\<close>

definition rom :: "byte list" where
  "rom = [
     0, 221, 2, 255, 2, 36, 0, 23, 1, 68, 2, 68, 0, 132, 1, 16, 2, 209, 3, 251,
     0, 95, 0, 195, 1, 168, 3, 103, 2, 238, 3, 226, 0, 46, 0, 144, 3, 234, 3, 234,
     3, 234, 0, 107, 2, 105, 0, 168, 2, 168, 0, 255, 3, 234, 3, 234, 3, 234, 0, 48,
     0, 204, 0, 170, 1, 168, 0, 67, 1, 211, 0, 204, 0, 48, 0, 0, 0, 131, 1, 68,
     0, 68, 0, 187, 2, 68, 0, 159, 2, 132, 3, 11, 0, 46, 0, 144, 3, 40, 3, 111,
     3, 234, 3, 234, 3, 234, 0, 75, 2, 103, 3, 168, 1, 113, 3, 119, 3, 203, 2, 206,
     0, 196, 1, 219, 1, 40, 0, 52, 2, 206, 3, 117, 1, 46, 2, 250, 1, 22, 3, 106,
     3, 131, 1, 186, 3, 155, 3, 54, 3, 76, 3, 155, 0, 28, 1, 234, 0, 2, 1, 51,
     2, 196, 2, 214, 3, 166, 1, 20, 2, 31, 1, 125, 3, 119, 0, 210, 1, 114, 0, 218,
     3, 138, 1, 119, 0, 206, 0, 52, 1, 142, 3, 12, 1, 42, 1, 138, 1, 186, 1, 163,
     0, 170, 1, 122, 1, 95, 1, 76, 3, 170, 1, 20, 1, 11, 3, 42, 0, 42, 3, 221,
     1, 10, 2, 206, 3, 44, 2, 39, 3, 178, 1, 235, 2, 209, 0, 144, 1, 20, 3, 219,
     3, 178, 0, 250, 1, 142, 1, 186, 1, 255, 0, 218, 0, 170, 3, 76, 1, 22, 1, 106,
     2, 126, 1, 59, 2, 118, 2, 3, 0, 202, 3, 221, 2, 214, 1, 158, 3, 44, 2, 79,
     0, 142, 1, 238, 0, 76, 1, 18, 0, 60, 1, 162, 2, 63, 3, 174, 0, 236, 3, 231,
     0, 202, 1, 132, 1, 235, 0, 254, 1, 168, 0, 46, 3, 250, 3, 250, 1, 250, 1, 250,
     0, 74, 2, 143, 3, 174, 3, 166, 1, 166, 2, 159, 3, 174, 2, 38, 0, 74, 2, 251,
     2, 142, 3, 234, 0, 14, 2, 251, 2, 163, 2, 246, 0, 212, 2, 211, 3, 126, 0, 254,
     1, 212, 2, 223, 1, 40, 1, 196, 0, 206, 1, 110, 0, 190, 1, 254, 2, 46, 0, 48,
     0, 144, 1, 113, 1, 68, 3, 119, 2, 206, 1, 158, 2, 36, 3, 63, 1, 250, 2, 4,
     1, 84, 3, 55, 1, 234, 3, 27, 0, 40, 0, 20, 3, 31, 0, 36, 0, 28, 3, 44,
     3, 67, 2, 40, 2, 20, 3, 51, 1, 14, 1, 100, 0, 208, 1, 40, 3, 174, 1, 117,
     1, 196, 3, 221, 2, 189, 2, 43, 2, 214, 0, 28, 0, 172, 1, 23, 3, 12, 2, 238,
     2, 246, 3, 226, 3, 226, 0, 140, 0, 60, 3, 98, 3, 191, 0, 2, 3, 171, 3, 226,
     3, 46, 0, 48, 1, 4, 2, 212, 0, 115, 1, 191, 0, 254, 2, 164, 3, 15, 1, 148,
     3, 243, 0, 28, 2, 146, 1, 233, 2, 168, 3, 111, 3, 207, 3, 46, 0, 161, 1, 168,
     0, 161, 1, 168, 2, 84, 0, 39, 3, 174, 1, 84, 0, 75, 0, 222, 2, 153, 1, 40,
     2, 149, 2, 97, 0, 149, 1, 168, 2, 153, 2, 148, 3, 107, 2, 238, 3, 226, 1, 38,
     3, 166, 1, 106, 2, 146, 1, 186, 0, 103, 2, 210, 1, 234, 0, 119, 2, 206, 2, 142,
     1, 40, 2, 46, 1, 7, 2, 46, 1, 12, 3, 123, 1, 40, 3, 174, 1, 162, 0, 183,
     0, 174, 1, 142, 0, 138, 3, 47, 1, 142, 0, 84, 0, 151, 2, 148, 1, 183, 1, 84,
     0, 87, 0, 254, 3, 190, 0, 55, 2, 146, 3, 126, 0, 235, 1, 254, 3, 50, 1, 210,
     3, 46, 1, 46, 3, 82, 0, 239, 1, 168, 2, 206, 3, 178, 3, 46, 1, 18, 1, 40,
     3, 254, 3, 254, 0, 143, 0, 206, 0, 42, 2, 214, 2, 201, 1, 98, 1, 168, 3, 174,
     1, 12, 2, 145, 1, 140, 2, 109, 2, 12, 2, 109, 0, 140, 2, 24, 2, 140, 2, 109,
     2, 57, 2, 109, 3, 49, 1, 14, 2, 109, 0, 142, 3, 45, 3, 49, 2, 174, 2, 153,
     2, 84, 1, 179, 0, 254, 2, 97, 0, 100, 0, 206, 1, 98, 1, 234, 0, 84, 2, 151,
     2, 153, 3, 49, 2, 174, 2, 149, 3, 49, 2, 174, 2, 174, 2, 85, 2, 174, 3, 173,
     3, 49, 2, 140, 2, 113, 2, 57, 2, 12, 2, 117, 0, 140, 2, 24, 1, 140, 2, 113,
     1, 12, 2, 113, 2, 113, 3, 46, 2, 78, 3, 76, 1, 88, 3, 239, 1, 140, 2, 24,
     1, 152, 1, 88, 0, 152, 1, 24, 2, 88, 0, 84, 3, 107, 0, 48, 2, 238, 3, 226,
     0, 16, 1, 16, 1, 14, 2, 150, 2, 46, 2, 135, 1, 254, 3, 14, 2, 131, 3, 142,
     1, 16, 1, 16, 1, 74, 1, 16, 1, 226, 3, 78, 2, 163, 3, 206, 1, 14, 0, 28,
     2, 82, 0, 44, 2, 167, 0, 183, 1, 226, 3, 22, 2, 203, 3, 150, 1, 22, 0, 28,
     0, 44, 2, 207, 0, 183, 0, 28, 3, 150, 3, 111, 0, 16, 1, 122, 1, 122, 2, 234,
     3, 94, 2, 126, 3, 27, 1, 16, 2, 6, 3, 43, 0, 254, 3, 46, 3, 14, 1, 16,
     0, 206, 2, 204, 1, 216, 2, 24, 1, 88, 0, 216, 2, 88, 2, 24, 0, 88, 1, 152,
     0, 216, 1, 88, 3, 12, 0, 48, 0, 16, 3, 138, 3, 123, 1, 98, 1, 254, 0, 44,
     2, 239, 3, 170, 2, 234, 0, 98, 3, 155, 2, 206, 2, 78, 2, 42, 0, 202, 3, 12,
     2, 187, 1, 16, 2, 146, 2, 146, 1, 126, 3, 179, 1, 210, 3, 18, 2, 50, 0, 142,
     3, 126, 3, 187, 3, 178, 1, 168, 0, 30, 0, 7, 1, 14, 3, 178, 1, 40, 2, 146,
     1, 126, 2, 62, 0, 16, 3, 62, 3, 254, 2, 86, 1, 18, 0, 75, 1, 168, 2, 153,
     1, 142, 2, 20, 1, 11, 2, 238, 3, 70, 0, 3, 2, 206, 1, 126, 0, 3, 1, 254,
     1, 46, 2, 89, 3, 98, 0, 71, 3, 50, 3, 158, 0, 7, 1, 204, 1, 181, 2, 12,
     2, 117, 2, 76, 2, 113, 3, 249, 2, 140, 2, 113, 1, 245, 2, 204, 2, 113, 3, 125,
     2, 113, 2, 229, 2, 113, 3, 217, 3, 174, 1, 78, 0, 26, 0, 191, 1, 78, 3, 46,
     0, 28, 1, 14, 0, 108, 0, 195, 3, 174, 1, 190, 0, 227, 0, 230, 1, 234, 2, 204,
     3, 21, 2, 84, 0, 27, 1, 84, 2, 83, 3, 217, 2, 157, 2, 83, 3, 217, 3, 177,
     2, 229, 2, 204, 2, 109, 3, 125, 2, 140, 2, 109, 1, 245, 2, 76, 2, 109, 3, 249,
     2, 12, 2, 109, 2, 109, 2, 109, 1, 140, 2, 242, 3, 76, 2, 46, 3, 174, 1, 152,
     2, 59, 0, 148, 1, 123, 3, 234, 2, 122, 3, 11, 3, 22, 1, 103, 3, 150, 1, 14,
     1, 106, 1, 115, 2, 206, 0, 210, 3, 170, 1, 190, 1, 179, 3, 46, 3, 14, 0, 238,
     2, 206, 2, 46, 0, 206, 1, 102, 0, 148, 1, 219, 1, 24, 1, 230, 1, 231, 1, 152,
     0, 108, 1, 215, 2, 78, 2, 78, 0, 148, 2, 83, 0, 48, 1, 204, 0, 216, 0, 216,
     0, 24, 2, 24, 1, 88, 0, 24, 2, 88, 3, 171, 2, 89, 3, 226, 1, 46, 1, 126,
     2, 27, 2, 210, 3, 174, 1, 22, 3, 174, 3, 126, 2, 35, 3, 46, 3, 226, 3, 49,
     0, 144, 2, 210, 3, 126, 2, 87, 2, 254, 3, 142, 0, 48, 0, 144, 2, 206, 2, 46,
     2, 131, 3, 142, 1, 126, 2, 127, 3, 174, 1, 22, 3, 174, 1, 183, 0, 204, 1, 202,
     1, 94, 2, 175, 0, 190, 3, 38, 2, 238, 3, 44, 3, 23, 0, 102, 2, 219, 0, 84,
     0, 3, 0, 146, 3, 102, 1, 250, 2, 50, 3, 166, 0, 144, 2, 36, 1, 152, 2, 88,
     0, 216, 0, 88, 1, 24, 1, 216, 0, 88, 3, 155, 3, 230, 1, 147, 3, 142, 1, 98,
     3, 19, 2, 206, 0, 60, 3, 108, 3, 23, 1, 234, 2, 254, 3, 12, 0, 46, 2, 98,
     3, 91, 1, 14, 1, 106, 2, 110, 3, 63, 0, 206, 1, 42, 3, 142, 2, 126, 3, 31,
     3, 166, 1, 142, 0, 46, 3, 12, 1, 235, 2, 76, 0, 216, 0, 88, 0, 24, 0, 88,
     1, 216, 2, 88, 2, 24, 0, 24, 1, 88, 1, 88, 0, 216, 3, 119, 3, 174, 1, 46,
     1, 134, 2, 186, 1, 123, 1, 250, 2, 206, 1, 234, 3, 203, 1, 159, 0, 206, 3, 12,
     0, 152, 0, 216, 0, 24, 0, 152, 1, 88, 2, 7, 1, 76, 1, 251]"

definition table_read :: "byte list \<Rightarrow> error \<Rightarrow> nat \<Rightarrow> error + byte" where
  "table_read tab err i = (if i < length tab then Inr (tab ! i) else Inl err)"

text \<open>The same for an index computed in \<open>int\<close>, which may be negative.\<close>

definition table_read_int :: "byte list \<Rightarrow> error \<Rightarrow> int \<Rightarrow> error + byte" where
  "table_read_int tab err i = (if 0 \<le> i then table_read tab err (nat i) else Inl err)"

section \<open>Register access\<close>

definition rd :: "reg \<Rightarrow> nat \<Rightarrow> cpu \<Rightarrow> error + byte" where
  "rd r i st = (if i < length (regs st r) then Inr (regs st r ! i) else Inl RegIndex)"

definition wr :: "reg \<Rightarrow> nat \<Rightarrow> byte \<Rightarrow> cpu \<Rightarrow> error + cpu" where
  "wr r i v st =
     (if i < length (regs st r)
      then Inr (st\<lparr>regs := (regs st)(r := (regs st r)[i := v])\<rparr>)
      else Inl RegIndex)"

definition rd_s :: "nat \<Rightarrow> cpu \<Rightarrow> error + byte" where
  "rd_s i st = (if i < length (s_reg st) then Inr (s_reg st ! i) else Inl StatusIndex)"

definition wr_s :: "nat \<Rightarrow> byte \<Rightarrow> cpu \<Rightarrow> error + cpu" where
  "wr_s i v st =
     (if i < length (s_reg st) then Inr (st\<lparr>s_reg := (s_reg st)[i := v]\<rparr>)
      else Inl StatusIndex)"

text \<open>\<open>memcpy(dst, src, WSIZE)\<close>: the first 14 bytes of the destination are replaced.\<close>

definition snapshot :: "reg \<Rightarrow> cpu \<Rightarrow> error + byte list" where
  "snapshot r st =
     (if WSIZE \<le> length (regs st r) then Inr (take WSIZE (regs st r)) else Inl RegIndex)"

definition memcpy_from :: "reg \<Rightarrow> byte list \<Rightarrow> cpu \<Rightarrow> error + cpu" where
  "memcpy_from dst src st =
     (if WSIZE \<le> length (regs st dst) \<and> WSIZE \<le> length src
      then Inr (st\<lparr>regs := (regs st)(dst := take WSIZE src @ drop WSIZE (regs st dst))\<rparr>)
      else Inl RegIndex)"

definition memcpy :: "reg \<Rightarrow> reg \<Rightarrow> cpu \<Rightarrow> error + cpu" where
  "memcpy dst src st = memcpy_from dst (regs st src) st"

section \<open>The decimal adder and subtractor\<close>

text \<open>
  \<open>do_add\<close> and \<open>do_sub\<close> compute in \<open>int\<close>, read and write the global carry and
  return the result cut to a byte.
\<close>

definition do_add :: "byte \<Rightarrow> byte \<Rightarrow> cpu \<Rightarrow> byte \<times> cpu" where
  "do_add x y st =
     (let res = uint x + uint y + uint (carry st)
      in if res > 9 then (word_of_int (res - 10), st\<lparr>carry := 1\<rparr>)
         else (word_of_int res, st\<lparr>carry := 0\<rparr>))"

definition do_sub :: "byte \<Rightarrow> byte \<Rightarrow> cpu \<Rightarrow> byte \<times> cpu" where
  "do_sub x y st =
     (let res = uint x - uint y - uint (carry st)
      in if res < 0 then (word_of_int (res + 10), st\<lparr>carry := 1\<rparr>)
         else (word_of_int res, st\<lparr>carry := 0\<rparr>))"

section \<open>Loops over a digit slice\<close>

fun for_loop :: "nat list \<Rightarrow> (nat \<Rightarrow> 'a \<Rightarrow> error + 'a) \<Rightarrow> 'a \<Rightarrow> error + 'a" where
  "for_loop [] body st = Inr st"
| "for_loop (i # js) body st = thenE (body i st) (for_loop js body)"

text \<open>
  The index ranges of the three loop headers of the engine:
  \<open>for (byte i = first; i <= last; i++)\<close>,
  \<open>for (byte i = first; i < last; i++)\<close> and
  \<open>for (int8_t i = last; i > first; i--)\<close>, whose signed counter starts below zero
  when \<open>last\<close> is 128 or more, so that the loop body never runs.
\<close>

definition upto_incl :: "byte \<Rightarrow> byte \<Rightarrow> nat list" where
  "upto_incl lo hi = [unat lo ..< Suc (unat hi)]"

definition upto_excl :: "byte \<Rightarrow> byte \<Rightarrow> nat list" where
  "upto_excl lo hi = [unat lo ..< unat hi]"

definition downto_excl :: "byte \<Rightarrow> byte \<Rightarrow> nat list" where
  "downto_excl hi lo = (if sint hi < 0 then [] else rev [Suc (unat lo) ..< Suc (unat hi)])"

datatype operand = Of reg | Lit byte

definition operand_val :: "operand \<Rightarrow> nat \<Rightarrow> cpu \<Rightarrow> error + byte" where
  "operand_val x i st = (case x of Of r \<Rightarrow> rd r i st | Lit v \<Rightarrow> Inr v)"

text \<open>\<open>dst[i] = f(x[i], y[i])\<close> with \<open>f\<close> one of \<open>do_add\<close>, \<open>do_sub\<close>.\<close>

definition alu_body ::
  "(byte \<Rightarrow> byte \<Rightarrow> cpu \<Rightarrow> byte \<times> cpu) \<Rightarrow> reg \<Rightarrow> operand \<Rightarrow> operand \<Rightarrow> nat \<Rightarrow> cpu \<Rightarrow> error + cpu"
where
  "alu_body f dst x y i st =
     thenE (operand_val x i st) (\<lambda>u.
     thenE (operand_val y i st) (\<lambda>v.
       case f u v st of (res, st') \<Rightarrow> wr dst i res st'))"

text \<open>\<open>dst[i] = x[i]\<close> and \<open>dst[i] = 0\<close>.\<close>

definition copy_body :: "reg \<Rightarrow> operand \<Rightarrow> nat \<Rightarrow> cpu \<Rightarrow> error + cpu" where
  "copy_body dst x i st = thenE (operand_val x i st) (\<lambda>v. wr dst i v st)"

text \<open>\<open>tmp = x[i]; x[i] = y[i]; y[i] = tmp\<close>.\<close>

definition exch_body :: "reg \<Rightarrow> reg \<Rightarrow> nat \<Rightarrow> cpu \<Rightarrow> error + cpu" where
  "exch_body x y i st =
     thenE (rd x i st) (\<lambda>tmp.
     thenE (rd y i st) (\<lambda>v.
     thenE (wr x i v st) (wr y i tmp)))"

text \<open>\<open>if (x[i] != 0) carry = cv\<close>.\<close>

definition test_body :: "reg \<Rightarrow> byte \<Rightarrow> nat \<Rightarrow> cpu \<Rightarrow> error + cpu" where
  "test_body x cv i st =
     thenE (rd x i st) (\<lambda>v. Inr (if v \<noteq> 0 then st\<lparr>carry := cv\<rparr> else st))"

text \<open>\<open>x[i] = x[j]\<close>.\<close>

definition move_body :: "reg \<Rightarrow> nat \<Rightarrow> nat \<Rightarrow> cpu \<Rightarrow> error + cpu" where
  "move_body x i j st = thenE (rd x j st) (\<lambda>v. wr x i v st)"

section \<open>The arithmetic and register instructions\<close>

text \<open>
  The bit fields of an instruction. The sketch computes them in \<open>int\<close> and stores
  them in a byte; every one is masked to at most 8 bits, so the 8-bit operations give
  the same values.
\<close>

definition bitsel :: "byte \<Rightarrow> byte \<Rightarrow> byte" where
  "bitsel fetch_h fetch_l = push_bit 2 (fetch_h AND 0x03) OR drop_bit 6 (fetch_l AND 0xc0)"

definition slice_code :: "byte \<Rightarrow> byte" where
  "slice_code fetch_l = drop_bit 2 fetch_l AND 0x07"

definition op_code_of :: "byte \<Rightarrow> byte \<Rightarrow> byte" where
  "op_code_of fetch_h fetch_l = (drop_bit 5 fetch_l AND 0x07) OR (push_bit 3 fetch_h AND 0x18)"

text \<open>The register loop boundaries \<open>first\<close> and \<open>last\<close> of the slice code.\<close>

definition select_slice :: "byte \<Rightarrow> cpu \<Rightarrow> cpu" where
  "select_slice code st =
     (if code = 0 then st\<lparr>first_d := p_reg st, last_d := p_reg st\<rparr>
      else if code = 1 then st\<lparr>first_d := 3, last_d := 12\<rparr>
      else if code = 2 then st\<lparr>first_d := 0, last_d := 2\<rparr>
      else if code = 3 then st\<lparr>first_d := 0, last_d := 13\<rparr>
      else if code = 4 then st\<lparr>first_d := 0, last_d := p_reg st\<rparr>
      else if code = 5 then st\<lparr>first_d := 3, last_d := 13\<rparr>
      else if code = 6 then st\<lparr>first_d := 2, last_d := 2\<rparr>
      else if code = 7 then st\<lparr>first_d := 13, last_d := 13\<rparr>
      else st)"

text \<open>The \<open>switch (op_code)\<close>, one line for each \<open>case\<close>.\<close>

definition arith_op :: "byte \<Rightarrow> cpu \<Rightarrow> error + cpu" where
  "arith_op op_code st =
     (let lo = first_d st; hi = last_d st in
      if op_code = 0x00 then for_loop (upto_incl lo hi) (test_body RB 1) st
      else if op_code = 0x01 then for_loop (upto_incl lo hi) (copy_body RB (Lit 0)) st
      else if op_code = 0x02 then
        for_loop (upto_incl lo hi) (alu_body do_sub RT (Of RA) (Of RC)) st
      else if op_code = 0x03 then
        for_loop (upto_incl lo hi) (test_body RC 0) (st\<lparr>carry := 1\<rparr>)
      else if op_code = 0x04 then for_loop (upto_incl lo hi) (copy_body RC (Of RB)) st
      else if op_code = 0x05 then
        for_loop (upto_incl lo hi) (alu_body do_sub RC (Lit 0) (Of RC)) st
      else if op_code = 0x06 then for_loop (upto_incl lo hi) (copy_body RC (Lit 0)) st
      else if op_code = 0x07 then
        for_loop (upto_incl lo hi) (alu_body do_sub RC (Lit 0) (Of RC)) (st\<lparr>carry := 1\<rparr>)
      else if op_code = 0x08 then
        thenE (for_loop (downto_excl hi lo) (\<lambda>i. move_body RA i (i - 1)) st)
          (wr RA (unat lo) 0)
      else if op_code = 0x09 then for_loop (upto_incl lo hi) (copy_body RB (Of RA)) st
      else if op_code = 0x0a then
        for_loop (upto_incl lo hi) (alu_body do_sub RC (Of RA) (Of RC)) st
      else if op_code = 0x0b then
        for_loop (upto_incl lo hi) (alu_body do_sub RC (Of RC) (Lit 0)) (st\<lparr>carry := 1\<rparr>)
      else if op_code = 0x0c then for_loop (upto_incl lo hi) (copy_body RA (Of RC)) st
      else if op_code = 0x0d then for_loop (upto_incl lo hi) (test_body RC 1) st
      else if op_code = 0x0e then
        for_loop (upto_incl lo hi) (alu_body do_add RC (Of RA) (Of RC)) st
      else if op_code = 0x0f then
        for_loop (upto_incl lo hi) (alu_body do_add RC (Of RC) (Lit 0)) (st\<lparr>carry := 1\<rparr>)
      else if op_code = 0x10 then
        for_loop (upto_incl lo hi) (alu_body do_sub RT (Of RA) (Of RB)) st
      else if op_code = 0x11 then for_loop (upto_incl lo hi) (exch_body RB RC) st
      else if op_code = 0x12 then
        thenE (for_loop (upto_excl lo hi) (\<lambda>i. move_body RC i (i + 1)) st)
          (wr RC (unat hi) 0)
      else if op_code = 0x13 then
        for_loop (upto_incl lo hi) (test_body RA 0) (st\<lparr>carry := 1\<rparr>)
      else if op_code = 0x14 then
        thenE (for_loop (upto_excl lo hi) (\<lambda>i. move_body RB i (i + 1)) st)
          (wr RB (unat hi) 0)
      else if op_code = 0x15 then
        for_loop (upto_incl lo hi) (alu_body do_add RC (Of RC) (Of RC)) st
      else if op_code = 0x16 then
        thenE (for_loop (upto_excl lo hi) (\<lambda>i. move_body RA i (i + 1)) st)
          (wr RA (unat hi) 0)
      else if op_code = 0x17 then for_loop (upto_incl lo hi) (copy_body RA (Lit 0)) st
      else if op_code = 0x18 then
        for_loop (upto_incl lo hi) (alu_body do_sub RA (Of RA) (Of RB)) st
      else if op_code = 0x19 then for_loop (upto_incl lo hi) (exch_body RA RB) st
      else if op_code = 0x1a then
        for_loop (upto_incl lo hi) (alu_body do_sub RA (Of RA) (Of RC)) st
      else if op_code = 0x1b then
        for_loop (upto_incl lo hi) (alu_body do_sub RA (Of RA) (Lit 0)) (st\<lparr>carry := 1\<rparr>)
      else if op_code = 0x1c then
        for_loop (upto_incl lo hi) (alu_body do_add RA (Of RA) (Of RB)) st
      else if op_code = 0x1d then for_loop (upto_incl lo hi) (exch_body RA RC) st
      else if op_code = 0x1e then
        for_loop (upto_incl lo hi) (alu_body do_add RA (Of RA) (Of RC)) st
      else if op_code = 0x1f then
        for_loop (upto_incl lo hi) (alu_body do_add RA (Of RA) (Lit 0)) (st\<lparr>carry := 1\<rparr>)
      else Inr st)"

section \<open>Decoding and executing one instruction\<close>

text \<open>
  After the fetch, \<open>process_rom\<close> is a sequence of \<open>if\<close> statements, each with a guard
  on the two fetched bytes. Each statement is one step here, in the order of the sketch;
  the guards are named so that they can be compared.
\<close>

definition is_jsb :: "byte \<Rightarrow> byte \<Rightarrow> bool" where
  "is_jsb fetch_h fetch_l = (fetch_l AND 0x03 = 0x01)"
definition is_return :: "byte \<Rightarrow> byte \<Rightarrow> bool" where
  "is_return fetch_h fetch_l = (fetch_l AND 0x7F = 0x30)"
definition is_rom_select :: "byte \<Rightarrow> byte \<Rightarrow> bool" where
  "is_rom_select fetch_h fetch_l = (fetch_l AND 0x7F = 0x10)"
definition is_key_jump :: "byte \<Rightarrow> byte \<Rightarrow> bool" where
  "is_key_jump fetch_h fetch_l = (fetch_l = 0xD0)"
definition is_l3f :: "byte \<Rightarrow> byte \<Rightarrow> byte \<Rightarrow> bool" where
  "is_l3f v fetch_h fetch_l = (fetch_l AND 0x3f = v)"
definition is_move :: "byte \<Rightarrow> byte \<Rightarrow> byte \<Rightarrow> byte \<Rightarrow> bool" where
  "is_move h3 v fetch_h fetch_l = (fetch_h AND 0x03 = h3 \<and> fetch_l AND 0xef = v)"
definition is_branch :: "byte \<Rightarrow> byte \<Rightarrow> bool" where
  "is_branch fetch_h fetch_l = (fetch_l AND 0x03 = 0x03)"
definition is_arith :: "byte \<Rightarrow> byte \<Rightarrow> bool" where
  "is_arith fetch_h fetch_l = (fetch_l AND 0x03 = 0x02)"

definition latch_key :: "cpu \<Rightarrow> error + cpu" where
  "latch_key st =
     (if key_code st < K_END
      then wr_s 0 1 (st\<lparr>key_rom := key_code st, key_code := K_END\<rparr>)
      else Inr st)"

definition do_jsb :: "byte \<Rightarrow> byte \<Rightarrow> cpu \<Rightarrow> error + cpu" where
  "do_jsb fetch_h fetch_l st =
     Inr (st\<lparr>ret := pc st,
             pc := (drop_bit 2 fetch_l AND 0x3f) OR (push_bit 6 fetch_h AND 0xc0)\<rparr>)"

definition do_return :: "byte \<Rightarrow> byte \<Rightarrow> cpu \<Rightarrow> error + cpu" where
  "do_return fetch_h fetch_l st = Inr (st\<lparr>pc := ret st\<rparr>)"

definition do_rom_select :: "byte \<Rightarrow> byte \<Rightarrow> cpu \<Rightarrow> error + cpu" where
  "do_rom_select fetch_h fetch_l st =
     Inr (st\<lparr>offset := (push_bit 1 fetch_h AND 6) OR (drop_bit 7 fetch_l AND 1)\<rparr>)"

definition do_key_jump :: "byte \<Rightarrow> byte \<Rightarrow> cpu \<Rightarrow> error + cpu" where
  "do_key_jump fetch_h fetch_l st = wr_s 0 0 (st\<lparr>pc := key_rom st\<rparr>)"

definition do_test_s :: "byte \<Rightarrow> byte \<Rightarrow> cpu \<Rightarrow> error + cpu" where
  "do_test_s fetch_h fetch_l st =
     thenE (rd_s (unat (bitsel fetch_h fetch_l)) st) (\<lambda>v. Inr (st\<lparr>carry := v\<rparr>))"

definition do_set_s :: "byte \<Rightarrow> byte \<Rightarrow> cpu \<Rightarrow> error + cpu" where
  "do_set_s fetch_h fetch_l st = wr_s (unat (bitsel fetch_h fetch_l)) 1 st"

definition do_clear_s :: "byte \<Rightarrow> byte \<Rightarrow> cpu \<Rightarrow> error + cpu" where
  "do_clear_s fetch_h fetch_l st = wr_s (unat (bitsel fetch_h fetch_l)) 0 st"

text \<open>\<open>memset(s, 0, 12)\<close>.\<close>

definition do_clear_stati :: "byte \<Rightarrow> byte \<Rightarrow> cpu \<Rightarrow> error + cpu" where
  "do_clear_stati fetch_h fetch_l st =
     (if 12 \<le> length (s_reg st)
      then Inr (st\<lparr>s_reg := replicate 12 0 @ drop 12 (s_reg st)\<rparr>)
      else Inl StatusIndex)"

definition do_test_p :: "byte \<Rightarrow> byte \<Rightarrow> cpu \<Rightarrow> error + cpu" where
  "do_test_p fetch_h fetch_l st =
     Inr (if p_reg st = bitsel fetch_h fetch_l then st\<lparr>carry := 1\<rparr> else st\<lparr>carry := 0\<rparr>)"

definition do_set_p :: "byte \<Rightarrow> byte \<Rightarrow> cpu \<Rightarrow> error + cpu" where
  "do_set_p fetch_h fetch_l st = Inr (st\<lparr>p_reg := bitsel fetch_h fetch_l\<rparr>)"

definition do_inc_p :: "byte \<Rightarrow> byte \<Rightarrow> cpu \<Rightarrow> error + cpu" where
  "do_inc_p fetch_h fetch_l st = Inr (st\<lparr>p_reg := (p_reg st + 1) AND 0x0f\<rparr>)"

definition do_dec_p :: "byte \<Rightarrow> byte \<Rightarrow> cpu \<Rightarrow> error + cpu" where
  "do_dec_p fetch_h fetch_l st = Inr (st\<lparr>p_reg := (p_reg st - 1) AND 0x0f\<rparr>)"

definition do_load_const :: "byte \<Rightarrow> byte \<Rightarrow> cpu \<Rightarrow> error + cpu" where
  "do_load_const fetch_h fetch_l st =
     thenE (wr RC (unat (p_reg st)) (drop_bit 6 fetch_l OR push_bit 2 fetch_h) st)
       (\<lambda>st'. Inr (st'\<lparr>p_reg := (p_reg st' - 1) AND 0x0f\<rparr>))"

definition do_c_m_exchange :: "byte \<Rightarrow> byte \<Rightarrow> cpu \<Rightarrow> error + cpu" where
  "do_c_m_exchange fetch_h fetch_l st =
     thenE (snapshot RC st) (\<lambda>tmp.
     thenE (memcpy RC RM st) (memcpy_from RM tmp))"

definition do_push :: "byte \<Rightarrow> byte \<Rightarrow> cpu \<Rightarrow> error + cpu" where
  "do_push fetch_h fetch_l st =
     thenE (memcpy RF RE st) (\<lambda>st1. thenE (memcpy RE RD st1) (memcpy RD RC))"

definition do_pop :: "byte \<Rightarrow> byte \<Rightarrow> cpu \<Rightarrow> error + cpu" where
  "do_pop fetch_h fetch_l st =
     thenE (memcpy RA RD st) (\<lambda>st1. thenE (memcpy RD RE st1) (memcpy RE RF))"

definition do_m_to_c :: "byte \<Rightarrow> byte \<Rightarrow> cpu \<Rightarrow> error + cpu" where
  "do_m_to_c fetch_h fetch_l st = memcpy RC RM st"

definition do_rotate_down :: "byte \<Rightarrow> byte \<Rightarrow> cpu \<Rightarrow> error + cpu" where
  "do_rotate_down fetch_h fetch_l st =
     thenE (snapshot RC st) (\<lambda>tmp.
     thenE (memcpy RC RD st) (\<lambda>st1.
     thenE (memcpy RD RE st1) (\<lambda>st2.
     thenE (memcpy RE RF st2) (memcpy_from RF tmp))))"

definition clear_body :: "nat \<Rightarrow> cpu \<Rightarrow> error + cpu" where
  "clear_body i st =
     thenE (wr RM i 0 st) (\<lambda>st1. thenE (wr RF i 0 st1) (\<lambda>st2.
     thenE (wr RE i 0 st2) (\<lambda>st3. thenE (wr RD i 0 st3) (\<lambda>st4.
     thenE (wr RC i 0 st4) (\<lambda>st5. thenE (wr RB i 0 st5) (wr RA i 0))))))"

definition do_clear_regs :: "byte \<Rightarrow> byte \<Rightarrow> cpu \<Rightarrow> error + cpu" where
  "do_clear_regs fetch_h fetch_l st = for_loop [0 ..< WSIZE] clear_body st"

definition do_no_display :: "byte \<Rightarrow> byte \<Rightarrow> cpu \<Rightarrow> error + cpu" where
  "do_no_display fetch_h fetch_l st =
     Inr (st\<lparr>display_enable := False, display_update := False\<rparr>)"

definition do_toggle_display :: "byte \<Rightarrow> byte \<Rightarrow> cpu \<Rightarrow> error + cpu" where
  "do_toggle_display fetch_h fetch_l st = Inr (st\<lparr>display_enable := \<not> display_enable st\<rparr>)"

text \<open>The branch is taken when the carry of the cycle before is not 1.\<close>

definition do_branch :: "byte \<Rightarrow> byte \<Rightarrow> cpu \<Rightarrow> error + cpu" where
  "do_branch fetch_h fetch_l st =
     Inr (if prevCarry st \<noteq> 1
          then st\<lparr>pc := drop_bit 2 (fetch_l AND 0xfc) OR push_bit 6 (fetch_h AND 0x03)\<rparr>
          else st)"

definition do_arith :: "byte \<Rightarrow> byte \<Rightarrow> cpu \<Rightarrow> error + cpu" where
  "do_arith fetch_h fetch_l st =
     arith_op (op_code_of fetch_h fetch_l)
       ((select_slice (slice_code fetch_l) st)\<lparr>carry := 0\<rparr>)"

text \<open>
  The instruction forms in the order of their \<open>if\<close> statements: each is a guard on the
  fetched bytes and the effect run when the guard holds.
\<close>

definition rules :: "((byte \<Rightarrow> byte \<Rightarrow> bool) \<times> (byte \<Rightarrow> byte \<Rightarrow> cpu \<Rightarrow> error + cpu)) list" where
  "rules =
    [(is_jsb, do_jsb),
     (is_return, do_return),
     (is_rom_select, do_rom_select),
     (is_key_jump, do_key_jump),
     (is_l3f 0x14, do_test_s),
     (is_l3f 0x04, do_set_s),
     (is_l3f 0x24, do_clear_s),
     (is_l3f 0x34, do_clear_stati),
     (is_l3f 0x2C, do_test_p),
     (is_l3f 0x0c, do_set_p),
     (is_l3f 0x3c, do_inc_p),
     (is_l3f 0x1c, do_dec_p),
     (is_l3f 0x18, do_load_const),
     (is_move 0x00 0xa8, do_c_m_exchange),
     (is_move 0x01 0x28, do_push),
     (is_move 0x01 0xa8, do_pop),
     (is_move 0x02 0xa8, do_m_to_c),
     (is_move 0x03 0x28, do_rotate_down),
     (is_move 0x03 0xa8, do_clear_regs),
     (is_move 0x00 0x28, do_no_display),
     (is_move 0x02 0x28, do_toggle_display),
     (is_branch, do_branch),
     (is_arith, do_arith)]"

fun run_rules ::
  "((byte \<Rightarrow> byte \<Rightarrow> bool) \<times> (byte \<Rightarrow> byte \<Rightarrow> cpu \<Rightarrow> error + cpu)) list
     \<Rightarrow> byte \<Rightarrow> byte \<Rightarrow> cpu \<Rightarrow> error + cpu"
where
  "run_rules [] fetch_h fetch_l st = Inr st"
| "run_rules ((guard, effect) # rs) fetch_h fetch_l st =
     thenE (if guard fetch_h fetch_l then effect fetch_h fetch_l st else Inr st)
       (run_rules rs fetch_h fetch_l)"

text \<open>Everything \<open>process_rom\<close> does with the fetched instruction, up to the display.\<close>

definition execute :: "byte \<Rightarrow> byte \<Rightarrow> cpu \<Rightarrow> error + cpu" where
  "execute fetch_h fetch_l st = thenE (latch_key st) (run_rules rules fetch_h fetch_l)"

section \<open>The display\<close>

definition rd_buf :: "nat \<Rightarrow> cpu \<Rightarrow> error + byte" where
  "rd_buf i st = (if i < length (dbuf st) then Inr (dbuf st ! i) else Inl BufIndex)"

definition wr_buf :: "nat \<Rightarrow> byte \<Rightarrow> cpu \<Rightarrow> error + cpu" where
  "wr_buf i v st =
     (if i < length (dbuf st) then Inr (st\<lparr>dbuf := (dbuf st)[i := v]\<rparr>) else Inl BufIndex)"

text \<open>\<open>message(n)\<close>: banner \<open>n\<close> into the display buffer; \<open>pos\<close> is a byte.\<close>

definition message_body :: "byte \<Rightarrow> nat \<Rightarrow> cpu \<Rightarrow> error + cpu" where
  "message_body n i st =
     (let pos :: byte = word_of_int (int DIGITS * (uint n - 1) + int i)
      in thenE (table_read msg TableIndex (unat pos)) (\<lambda>v. wr_buf i v st))"

definition message :: "byte \<Rightarrow> cpu \<Rightarrow> error + cpu" where
  "message n st = for_loop [0 ..< DIGITS] (message_body n) st"

text \<open>
  One round of the loop of \<open>printscreen\<close> over the digits 13 down to 6; \<open>pos\<close> is the
  cell being written.
\<close>

definition show_digit :: "nat \<Rightarrow> nat \<times> cpu \<Rightarrow> error + nat \<times> cpu" where
  "show_digit i ps =
     (case ps of (pos, st) \<Rightarrow>
        thenE (wr_buf pos 0 st) (\<lambda>st1.
        thenE (rd RB i st1) (\<lambda>bi.
        thenE
          (if bi \<ge> 8 then thenE (wr_buf pos 0 st1) (\<lambda>st2. Inr (pos + 1, st2))
           else if i = 13 then
             thenE (rd RA i st1) (\<lambda>ai.
               if ai \<ge> 8 then thenE (wr_buf pos SEG_MINUS st1) (\<lambda>st2. Inr (pos + 1, st2))
               else Inr (pos + 1, st1))
           else
             thenE (rd RA i st1) (\<lambda>ai.
             thenE (table_read digit DigitIndex (unat ai)) (\<lambda>g.
             thenE (wr_buf pos g st1) (\<lambda>st2. Inr (pos + 1, st2)))))
          (\<lambda>ps'. case ps' of (pos', st3) \<Rightarrow>
             if bi = 2 then
               thenE (rd_buf (pos' - 1) st3) (\<lambda>v.
               thenE (wr_buf (pos' - 1) (v OR SEG_DOT) st3) (\<lambda>st4. Inr (pos', st4)))
             else Inr (pos', st3)))))"

definition show_exponent :: "cpu \<Rightarrow> error + cpu" where
  "show_exponent st =
     thenE (rd RB 0 st) (\<lambda>b0. thenE (rd RB 1 st) (\<lambda>b1. thenE (rd RB 2 st) (\<lambda>b2.
       if (b0 OR b1 OR b2) < 8 then
         thenE (rd RA 2 st) (\<lambda>a2.
         thenE (wr_buf 5 (if a2 < 8 then 0 else SEG_MINUS) st) (\<lambda>st1.
         thenE (rd RA 1 st1) (\<lambda>a1.
         thenE (table_read digit DigitIndex (unat a1)) (\<lambda>g1.
         thenE (wr_buf 6 g1 st1) (\<lambda>st2.
         thenE (rd RA 0 st2) (\<lambda>a0.
         thenE (table_read digit DigitIndex (unat a0)) (\<lambda>g0.
           wr_buf 7 g0 st2)))))))
       else Inr st)))"

definition show_stack :: "cpu \<Rightarrow> error + cpu" where
  "show_stack st =
     thenE (for_loop (rev [6 ..< WSIZE]) show_digit (0, st)) (\<lambda>ps. show_exponent (snd ps))"

text \<open>\<open>printbuf\<close> puts the indicator of the function key into cell 0 and sends the buffer.\<close>

definition printbuf :: "cpu \<Rightarrow> error + cpu" where
  "printbuf st =
     (if fg st = 1 \<or> fg st = 2
      then wr_buf 0 (if fg st = 1 then SEG_HIGHLINE else SEG_LOWLINE) st
      else Inr st)"

definition printscreen :: "cpu \<Rightarrow> error + cpu" where
  "printscreen st =
     thenE
       (if msgnr st \<noteq> 0 then message (msgnr st) st
        else if darkscreen st then
          (if DIGITS \<le> length (dbuf st)
           then Inr (st\<lparr>dbuf := replicate DIGITS 0 @ drop DIGITS (dbuf st)\<rparr>)
           else Inl BufIndex)
        else show_stack st)
       (\<lambda>st1. thenE (printbuf st1) (\<lambda>st2. Inr (st2\<lparr>display_update := False\<rparr>)))"

section \<open>One microcycle\<close>

definition fetch :: "cpu \<Rightarrow> error + byte \<times> byte" where
  "fetch st =
     (let i = unat (offset st) * 256 * 2 + unat (pc st) * 2
      in thenE (table_read rom RomIndex i) (\<lambda>fetch_h.
         thenE (table_read rom RomIndex (i + 1)) (\<lambda>fetch_l. Inr (fetch_h, fetch_l))))"

definition update_display :: "cpu \<Rightarrow> error + cpu" where
  "update_display st =
     (if display_enable st then Inr (st\<lparr>display_update := True\<rparr>)
      else if display_update st then
        thenE (printscreen st) (\<lambda>st1. Inr (st1\<lparr>islock := False, count := 0\<rparr>))
      else Inr st)"

definition process_rom :: "cpu \<Rightarrow> error + cpu" where
  "process_rom st =
     (let st1 = (if pc st = 191 \<and> offset st = 0 then st\<lparr>msgnr := MSGERROR\<rparr> else st);
          st2 = st1\<lparr>prevCarry := carry st1, carry := 0\<rparr>
      in thenE (fetch st2) (\<lambda>hl. case hl of (fetch_h, fetch_l) \<Rightarrow>
         thenE (execute fetch_h fetch_l (st2\<lparr>pc := pc st2 + 1\<rparr>)) update_display))"

section \<open>The main loop\<close>

text \<open>
  One round of \<open>loop()\<close>. The key scanned at the end of the round is the argument
  \<open>scanned\<close>: it is what \<open>getkey()\<close> returns. Writing the brightness to the board
  leaves no trace in the variables beyond the incremented \<open>brightness\<close>.
\<close>

definition press_key :: "cpu \<Rightarrow> error + cpu" where
  "press_key st =
     (if key st \<noteq> 0 \<and> key st < K_END then
        (let st1 = st\<lparr>display_update := True, msgnr := 0, darkscreen := False, isrun := False\<rparr>
         in if key st1 = KF then
              (let st2 = st1\<lparr>fg := fg st1 + 1\<rparr>
               in Inr (if fg st2 > 2 then st2\<lparr>darkscreen := True, fg := 0\<rparr> else st2))
            else
              (let pos :: byte = word_of_int (uint (fg st1) * int KEYS + uint (key st1) - 1)
               in thenE (table_read k2c TableIndex (unat pos)) (\<lambda>kc.
                    (let st2 = st1\<lparr>key_code := kc, fg := 0\<rparr>
                     in if kc = K_HYP then Inr (st2\<lparr>fg := 3, msgnr := MSGHYP\<rparr>)
                        else if kc = K_LIT then
                          Inr (st2\<lparr>brightness := brightness st2 + 1, key_code := K_END\<rparr>)
                        else if kc > K_LIT then
                          thenE (table_read_int c2m TableIndex (uint kc - uint K_LIT - 1)) (\<lambda>entry.
                            Inr (st2\<lparr>memp := uint entry, isrun := True, msgnr := MSGRUN\<rparr>))
                        else Inr st2))))
      else Inr st)"

text \<open>
  \<open>if (isrun && !islock && count++ > 5)\<close>: the counter is incremented only when the
  first two conditions hold, and compared before the increment.
\<close>

definition sequencer :: "cpu \<Rightarrow> error + cpu" where
  "sequencer st =
     (if isrun st \<and> \<not> islock st then
        (let st1 = st\<lparr>count := count st + 1\<rparr>
         in if count st > 5 then
              thenE (table_read_int mem TableIndex (memp st1)) (\<lambda>cmd.
                (let st2 = st1\<lparr>memp := memp st1 + 1\<rparr>
                 in Inr ((if cmd = K_END
                          then st2\<lparr>isrun := False, display_update := True, msgnr := 0\<rparr>
                          else st2\<lparr>key_code := cmd\<rparr>)\<lparr>islock := True\<rparr>)))
            else Inr st1)
      else Inr st)"

definition scan_key :: "byte \<Rightarrow> cpu \<Rightarrow> cpu" where
  "scan_key scanned st =
     (if scanned = oldkey st then st\<lparr>key := K_END\<rparr> else st\<lparr>key := scanned, oldkey := scanned\<rparr>)"

definition loop :: "byte \<Rightarrow> cpu \<Rightarrow> error + cpu" where
  "loop scanned st =
     thenE (press_key st) (\<lambda>st1.
     thenE (process_rom st1) (\<lambda>st2.
     thenE (sequencer st2) (\<lambda>st3. Inr (scan_key scanned st3))))"

section \<open>Notions used in the properties\<close>

text \<open>
  A state is well formed when every array has its declared size and the pointer is a
  4-bit value.
\<close>

definition wf_cpu :: "cpu \<Rightarrow> bool" where
  "wf_cpu st = ((\<forall>r. length (regs st r) = 16) \<and> length (s_reg st) = 12 \<and>
            length (dbuf st) = DIGITS \<and> p_reg st < 16)"

text \<open>No two guards of a list of instruction forms hold for the same instruction.\<close>

fun exclusive :: "((byte \<Rightarrow> byte \<Rightarrow> bool) \<times> 'x) list \<Rightarrow> byte \<Rightarrow> byte \<Rightarrow> bool" where
  "exclusive [] h l = True"
| "exclusive (r # rs) h l =
     ((\<not> fst r h l \<or> list_all (\<lambda>r'. \<not> fst r' h l) rs) \<and> exclusive rs h l)"

text \<open>The instructions of the microcode, as pairs of a high and a low byte.\<close>

fun pairs :: "'a list \<Rightarrow> ('a \<times> 'a) list" where
  "pairs (h # l # rest) = (h, l) # pairs rest"
| "pairs rest = []"

text \<open>The registers of a result, for statements about concrete runs.\<close>

definition regs_of :: "error + cpu \<Rightarrow> reg \<Rightarrow> error + byte list" where
  "regs_of res r = thenE res (\<lambda>st. Inr (regs st r))"

definition stack_demo :: cpu where
  "stack_demo = power_on\<lparr>regs := (regs power_on)
     (RC := replicate 16 3, RD := replicate 16 4, RE := replicate 16 5, RF := replicate 16 6)\<rparr>"

text \<open>
  The frame of a loop over the digits \<open>lo\<close> to \<open>hi\<close>: no register changes outside
  these digits, no register changes its size, and of the other variables only the carry
  may change.
\<close>

definition unchanged_outside :: "nat \<Rightarrow> nat \<Rightarrow> cpu \<Rightarrow> cpu \<Rightarrow> bool" where
  "unchanged_outside lo hi st st' =
     (\<forall>r i. i < lo \<or> hi < i \<longrightarrow> regs st' r ! i = regs st r ! i)"

definition rest_of :: "cpu \<Rightarrow> cpu" where
  "rest_of st = st\<lparr>regs := (\<lambda>r. []), carry := 0\<rparr>"

definition step_ok :: "nat \<Rightarrow> nat \<Rightarrow> cpu \<Rightarrow> cpu \<Rightarrow> bool" where
  "step_ok lo hi st st' =
     ((\<forall>r. length (regs st' r) = length (regs st r)) \<and> unchanged_outside lo hi st st' \<and>
      rest_of st' = rest_of st)"

text \<open>Every register has its 16 entries.\<close>

definition lens :: "cpu \<Rightarrow> bool" where
  "lens st = (\<forall>r. length (regs st r) = 16)"

text \<open>A loop body, and a whole loop, that succeed and keep to the frame.\<close>

definition body_ok :: "nat \<Rightarrow> nat \<Rightarrow> (nat \<Rightarrow> cpu \<Rightarrow> error + cpu) \<Rightarrow> bool" where
  "body_ok lo hi body =
     (\<forall>i s. lo \<le> i \<and> i \<le> hi \<and> lens s \<longrightarrow> (\<exists>s'. body i s = Inr s' \<and> step_ok lo hi s s'))"

definition slice_result :: "nat \<Rightarrow> nat \<Rightarrow> cpu \<Rightarrow> error + cpu \<Rightarrow> bool" where
  "slice_result lo hi st res = (\<exists>st'. res = Inr st' \<and> lens st' \<and> step_ok lo hi st st')"

text \<open>
  The adder as the specification words it, on lists of digits with the least
  significant digit first: \<open>s = x + y + cin\<close>; if \<open>s \<ge> 10\<close> then \<open>s - 10\<close> and carry 1,
  else \<open>s\<close> and carry 0. It returns the digits of the sum and the last carry.
\<close>

fun ripple_add :: "int list \<Rightarrow> int list \<Rightarrow> int \<Rightarrow> int list \<times> int" where
  "ripple_add (x # xs) (y # ys) cin =
     (let s = x + y + cin
      in if s \<ge> 10 then (case ripple_add xs ys 1 of (ds, cout) \<Rightarrow> ((s - 10) # ds, cout))
         else (case ripple_add xs ys 0 of (ds, cout) \<Rightarrow> (s # ds, cout)))"
| "ripple_add xs ys cin = ([], cin)"

text \<open>The number a list of digits stands for, and the digits \<open>lo\<close> to \<open>hi\<close> of a register.\<close>

fun dec_val :: "int list \<Rightarrow> int" where
  "dec_val [] = 0"
| "dec_val (d # ds) = d + 10 * dec_val ds"

definition reg_slice :: "nat \<Rightarrow> nat \<Rightarrow> 'a list \<Rightarrow> 'a list" where
  "reg_slice lo hi xs = map ((!) xs) [lo ..< Suc hi]"

definition is_digit :: "int \<Rightarrow> bool" where
  "is_digit d = (0 \<le> d \<and> d \<le> 9)"

text \<open>A state with decimal digits in the mantissa of A and of C.\<close>

definition add_demo :: cpu where
  "add_demo = power_on\<lparr>regs := (regs power_on)
     (RA := [0, 0, 0, 7, 5, 9, 0, 0, 0, 0, 0, 0, 9, 0, 0, 0],
      RC := [0, 0, 0, 5, 4, 0, 0, 0, 0, 0, 0, 0, 2, 0, 0, 0])\<rparr>"

text \<open>The result of an instruction is a well-formed state, or the error of the status array.\<close>

definition safe :: "error + cpu \<Rightarrow> bool" where
  "safe res = (case res of Inl e \<Rightarrow> e = StatusIndex | Inr st' \<Rightarrow> wf_cpu st')"

text \<open>The initial state with the pointer at 15.\<close>

definition p15_demo :: cpu where
  "p15_demo = power_on\<lparr>p_reg := 15\<rparr>"






text \<open>Everything but the display buffer.\<close>

definition no_dbuf :: "cpu \<Rightarrow> cpu" where
  "no_dbuf st = st\<lparr>dbuf := []\<rparr>"



text \<open>The variables of the shell, which no instruction writes.\<close>

definition shell_part ::
  "cpu \<Rightarrow> byte \<times> byte \<times> byte list \<times> byte \<times> byte \<times> byte \<times> byte \<times> bool \<times> int \<times> int \<times> bool \<times> bool" where
  "shell_part st = (prevCarry st, msgnr st, dbuf st, brightness st, key st, oldkey st, fg st,
     darkscreen st, memp st, count st, isrun st, islock st)"

text \<open>What a write to the display buffer keeps: all other variables and the size.\<close>

definition buf_view :: "cpu \<Rightarrow> cpu \<times> nat" where
  "buf_view st = (st\<lparr>dbuf := []\<rparr>, length (dbuf st))"

text \<open>Everything but the variables the display update writes.\<close>

definition except_display :: "cpu \<Rightarrow> cpu" where
  "except_display st = st\<lparr>dbuf := [], display_update := False, islock := False, count := 0\<rparr>"

section \<open>Basic facts\<close>

lemma thenE_Inr [simp]: "thenE (Inr x) k = k x"
  by (simp add: thenE_def)

lemma thenE_Inl [simp]: "thenE (Inl e) k = Inl e"
  by (simp add: thenE_def)

lemma thenE_return [simp]: "thenE m Inr = m"
  by (cases m) simp_all

lemma thenE_eq_Inr: "(thenE m k = Inr y) = (\<exists>x. m = Inr x \<and> k x = Inr y)"
  by (cases m) simp_all

lemma all8: "(\<forall>n<8. P n) = (P 0 \<and> P 1 \<and> P 2 \<and> P 3 \<and> P 4 \<and> P 5 \<and> P 6 \<and> P (7::nat))"
proof -
  have "{..<8::nat} = {0,1,2,3,4,5,6,7}" by auto
  then show ?thesis by (metis (no_types, lifting) insert_iff lessThan_iff empty_iff)
qed

text \<open>Two bytes are equal when their eight bits are.\<close>

lemma byte_eq_bits:
  "((x::byte) = y) =
     (bit x 0 = bit y 0 \<and> bit x 1 = bit y 1 \<and> bit x 2 = bit y 2 \<and> bit x 3 = bit y 3 \<and>
      bit x 4 = bit y 4 \<and> bit x 5 = bit y 5 \<and> bit x 6 = bit y 6 \<and> bit x 7 = bit y 7)"
proof
  assume "bit x 0 = bit y 0 \<and> bit x 1 = bit y 1 \<and> bit x 2 = bit y 2 \<and> bit x 3 = bit y 3 \<and>
      bit x 4 = bit y 4 \<and> bit x 5 = bit y 5 \<and> bit x 6 = bit y 6 \<and> bit x 7 = bit y 7"
  then have "\<forall>n<8. bit x n = bit y n" by (simp only: all8)
  then show "x = y" by (intro bit_word_eqI) simp
qed simp

lemmas guard_defs = is_jsb_def is_return_def is_rom_select_def is_key_jump_def is_l3f_def
  is_move_def is_branch_def is_arith_def

section \<open>The decoder\<close>

lemma exclusive_rules: "exclusive rules h l"
  apply (simp add: rules_def guard_defs byte_eq_bits bit_simps)
  apply argo
  done

lemma run_rules_skip:
  "list_all (\<lambda>r'. \<not> fst r' h l) rs \<Longrightarrow> run_rules rs h l st = Inr st"
  by (induction rs arbitrary: st) auto

lemma run_rules_exclusive:
  "exclusive rs h l \<Longrightarrow>
   run_rules rs h l st =
     (case find (\<lambda>r. fst r h l) rs of None \<Rightarrow> Inr st | Some r \<Rightarrow> snd r h l st)"
proof (induction rs arbitrary: st)
  case Nil
  then show ?case by simp
next
  case (Cons r rs)
  obtain g eff where r: "r = (g, eff)" by (cases r)
  show ?case
  proof (cases "g h l")
    case True
    with Cons.prems r have "list_all (\<lambda>r'. \<not> fst r' h l) rs" by simp
    then have "run_rules rs h l = Inr" by (intro ext) (rule run_rules_skip)
    with True r show ?thesis by simp
  next
    case False
    with Cons r show ?thesis by simp
  qed
qed

lemma exclusive_filter:
  "exclusive rs h l \<Longrightarrow> length (filter (\<lambda>r. fst r h l) rs) \<le> 1"
proof (induction rs)
  case Nil
  then show ?case by simp
next
  case (Cons r rs)
  show ?case
  proof (cases "fst r h l")
    case True
    with Cons.prems have "list_all (\<lambda>r'. \<not> fst r' h l) rs" by simp
    then have "filter (\<lambda>r. fst r h l) rs = []" by (induction rs) auto
    with True show ?thesis by simp
  next
    case False
    with Cons show ?thesis by simp
  qed
qed

lemma exclusive_find:
  "exclusive rs h l \<Longrightarrow> r \<in> set rs \<Longrightarrow> fst r h l \<Longrightarrow> find (\<lambda>r. fst r h l) rs = Some r"
proof (induction rs)
  case Nil
  then show ?case by simp
next
  case (Cons r0 rs)
  show ?case
  proof (cases "fst r0 h l")
    case True
    with Cons.prems have "list_all (\<lambda>r'. \<not> fst r' h l) rs" by simp
    with Cons.prems have "r = r0" by (auto simp: list_all_iff)
    with True show ?thesis by simp
  next
    case False
    with Cons show ?thesis by auto
  qed
qed

lemma execute_decode:
  "execute h l st =
     thenE (latch_key st) (\<lambda>st1. case find (\<lambda>r. fst r h l) rules of
        None \<Rightarrow> Inr st1 | Some r \<Rightarrow> snd r h l st1)"
proof -
  have "run_rules rules h l =
      (\<lambda>st1. case find (\<lambda>r. fst r h l) rules of None \<Rightarrow> Inr st1 | Some r \<Rightarrow> snd r h l st1)"
    by (intro ext) (rule run_rules_exclusive [OF exclusive_rules])
  then show ?thesis by (simp add: execute_def)
qed

lemma execute_rule:
  assumes "(g, eff) \<in> set rules" and "g h l"
  shows "execute h l st = thenE (latch_key st) (eff h l)"
proof -
  have "find (\<lambda>r. fst r h l) rules = Some (g, eff)"
    using exclusive_find [OF exclusive_rules assms(1)] assms(2) by simp
  then show ?thesis by (simp add: execute_decode)
qed

text \<open>
  C3. The decoder is total and exclusive. For every pair of fetched bytes at most one
  of the instruction forms of \<open>process_rom\<close> (subroutine call, return, bank select,
  jump on key, the status and pointer operations, load constant, the register moves,
  the display switches, conditional branch, arithmetic) has a true guard, and after
  the key latch the cycle runs the effect of that one form, or nothing when no guard
  holds.
\<close>

theorem decoder_total_and_exclusive:
  "length (filter (\<lambda>r. fst r fetch_h fetch_l) rules) \<le> 1 \<and>
   execute fetch_h fetch_l st =
     thenE (latch_key st) (\<lambda>st1. case find (\<lambda>r. fst r fetch_h fetch_l) rules of
        None \<Rightarrow> Inr st1 | Some r \<Rightarrow> snd r fetch_h fetch_l st1)"
  using exclusive_filter [OF exclusive_rules, of fetch_h fetch_l]
  by (simp add: execute_decode)

section \<open>The microcode image\<close>

lemma rom_length: "length rom = 1536"
  by (simp add: rom_def)

lemma rom_pairs: "length (pairs rom) = 768 \<and> list_all (\<lambda>hl. fst hl \<le> 3) (pairs rom)"
  by (simp add: rom_def)

lemma fetch_in_bank:
  assumes "offset st \<le> 2"
  shows "fetch st = Inr (rom ! (unat (offset st) * 512 + unat (pc st) * 2),
                         rom ! (unat (offset st) * 512 + unat (pc st) * 2 + 1))"
proof -
  have o: "unat (offset st) \<le> 2" using assms by (simp add: word_le_nat_alt)
  have p: "unat (pc st) < 256" using unsigned_less [of "pc st", where 'a = nat] by simp
  show ?thesis
    using o p by (simp add: fetch_def Let_def table_read_def rom_length mult.commute)
qed

lemma fetch_out_of_bank:
  assumes "\<not> offset st \<le> 2"
  shows "fetch st = Inl RomIndex"
proof -
  have o: "3 \<le> unat (offset st)" using assms by (simp add: word_le_nat_alt)
  show ?thesis
    using o by (simp add: fetch_def Let_def table_read_def rom_length)
qed

text \<open>
  C8, as the claim states it, fails: the image does not have 768 bytes. A fetch in
  bank 2 reads from index 1024 on.
\<close>

theorem rom_size_counterexample: "length rom \<noteq> 768"
  by (simp add: rom_length)

text \<open>
  C8, amended. The image has 1536 bytes: 768 instructions of ten bits, each stored as a
  high byte that holds the upper two bits and a low byte. The fetch of address \<open>pc\<close> in
  bank \<open>offset\<close> reads the bytes at \<open>offset * 512 + pc * 2\<close> and the one after it, which
  lie inside the image exactly for the banks 0, 1 and 2; in any other bank the read
  leaves the image.
\<close>

theorem rom_image_and_fetch:
  "length rom = 1536 \<and> length (pairs rom) = 768 \<and>
   list_all (\<lambda>hl. fst hl \<le> 3) (pairs rom) \<and>
   fetch st =
     (if offset st \<le> 2
      then Inr (rom ! (unat (offset st) * 512 + unat (pc st) * 2),
                rom ! (unat (offset st) * 512 + unat (pc st) * 2 + 1))
      else Inl RomIndex) \<and>
   (offset st \<le> 2) = (unat (offset st) * 512 + unat (pc st) * 2 + 1 < length rom)"
proof -
  have p: "unat (pc st) < 256" using unsigned_less [of "pc st", where 'a = nat] by simp
  have "(offset st \<le> 2) = (unat (offset st) * 512 + unat (pc st) * 2 + 1 < length rom)"
    using p by (auto simp: word_le_nat_alt rom_length)
  then show ?thesis
    using rom_pairs by (simp add: rom_length fetch_in_bank fetch_out_of_bank)
qed

section \<open>The stack moves\<close>

lemma latch_key_ok:
  "0 < length (s_reg st) \<Longrightarrow>
   latch_key st = Inr (if key_code st < K_END
     then st\<lparr>key_rom := key_code st, key_code := K_END, s_reg := (s_reg st)[0 := 1]\<rparr> else st)"
  by (simp add: latch_key_def wr_s_def)

lemma memcpy_ok:
  "length (regs st dst) = 16 \<Longrightarrow> length (regs st src) = 16 \<Longrightarrow>
   memcpy dst src st =
     Inr (st\<lparr>regs := (regs st)(dst := take WSIZE (regs st src) @ drop WSIZE (regs st dst))\<rparr>)"
  by (simp add: memcpy_def memcpy_from_def)

lemma do_push_ok:
  "\<forall>r. length (regs st r) = 16 \<Longrightarrow>
   do_push h l st = Inr (st\<lparr>regs := (regs st)
     (RF := take WSIZE (regs st RE) @ drop WSIZE (regs st RF),
      RE := take WSIZE (regs st RD) @ drop WSIZE (regs st RE),
      RD := take WSIZE (regs st RC) @ drop WSIZE (regs st RD))\<rparr>)"
  by (simp add: do_push_def memcpy_ok)

lemma do_pop_ok:
  "\<forall>r. length (regs st r) = 16 \<Longrightarrow>
   do_pop h l st = Inr (st\<lparr>regs := (regs st)
     (RA := take WSIZE (regs st RD) @ drop WSIZE (regs st RA),
      RD := take WSIZE (regs st RE) @ drop WSIZE (regs st RD),
      RE := take WSIZE (regs st RF) @ drop WSIZE (regs st RE))\<rparr>)"
  by (simp add: do_pop_def memcpy_ok)

lemma execute_push:
  assumes "wf_cpu st" and "is_move 1 0x28 h l"
  shows "\<exists>st1. execute h l st = Inr st1 \<and> wf_cpu st1 \<and>
     regs st1 = (regs st)
      (RF := take WSIZE (regs st RE) @ drop WSIZE (regs st RF),
       RE := take WSIZE (regs st RD) @ drop WSIZE (regs st RE),
       RD := take WSIZE (regs st RC) @ drop WSIZE (regs st RD))"
proof -
  have "(is_move 1 0x28, do_push) \<in> set rules" by (simp add: rules_def)
  from execute_rule [OF this assms(2)] assms(1) show ?thesis
    by (simp add: latch_key_ok do_push_ok wf_cpu_def)
qed

lemma execute_pop:
  assumes "wf_cpu st" and "is_move 1 0xa8 h l"
  shows "\<exists>st1. execute h l st = Inr st1 \<and> wf_cpu st1 \<and>
     regs st1 = (regs st)
      (RA := take WSIZE (regs st RD) @ drop WSIZE (regs st RA),
       RD := take WSIZE (regs st RE) @ drop WSIZE (regs st RD),
       RE := take WSIZE (regs st RF) @ drop WSIZE (regs st RE))"
proof -
  have "(is_move 1 0xa8, do_pop) \<in> set rules" by (simp add: rules_def)
  from execute_rule [OF this assms(2)] assms(1) show ?thesis
    by (simp add: latch_key_ok do_pop_ok wf_cpu_def)
qed

text \<open>
  C4, amended. A push (\<open>f \<leftarrow> e\<close>, \<open>e \<leftarrow> d\<close>, \<open>d \<leftarrow> c\<close>) followed at once by a pop
  (\<open>a \<leftarrow> d\<close>, \<open>d \<leftarrow> e\<close>, \<open>e \<leftarrow> f\<close>) restores D and E, leaves C as it was, which is
  the value pushed into D, and copies that value into A. F is not restored: its first
  14 digits are those E had before the push.
\<close>

theorem push_then_pop:
  assumes "wf_cpu st" and "is_move 1 0x28 h1 l1" and "is_move 1 0xa8 h2 l2"
  shows "\<exists>st1 st2. execute h1 l1 st = Inr st1 \<and> execute h2 l2 st1 = Inr st2 \<and>
     regs st2 RD = regs st RD \<and> regs st2 RE = regs st RE \<and> regs st2 RC = regs st RC \<and>
     regs st1 RD = take WSIZE (regs st RC) @ drop WSIZE (regs st RD) \<and>
     regs st2 RF = take WSIZE (regs st RE) @ drop WSIZE (regs st RF) \<and>
     regs st2 RA = take WSIZE (regs st RC) @ drop WSIZE (regs st RA)"
proof -
  from execute_push [OF assms(1,2)] obtain st1 where
    1: "execute h1 l1 st = Inr st1" "wf_cpu st1" and
    r1: "regs st1 = (regs st)
      (RF := take WSIZE (regs st RE) @ drop WSIZE (regs st RF),
       RE := take WSIZE (regs st RD) @ drop WSIZE (regs st RE),
       RD := take WSIZE (regs st RC) @ drop WSIZE (regs st RD))" by blast
  from execute_pop [OF 1(2) assms(3)] obtain st2 where
    2: "execute h2 l2 st1 = Inr st2" and
    r2: "regs st2 = (regs st1)
      (RA := take WSIZE (regs st1 RD) @ drop WSIZE (regs st1 RA),
       RD := take WSIZE (regs st1 RE) @ drop WSIZE (regs st1 RD),
       RE := take WSIZE (regs st1 RF) @ drop WSIZE (regs st1 RE))" by blast
  have len: "\<And>r. length (regs st r) = 16" using assms(1) by (simp add: wf_cpu_def)
  show ?thesis
    using 1(1) 2 by (simp add: r1 r2 len)
qed

theorem push_then_pop_witness:
  "wf_cpu stack_demo \<and> is_move 1 0x28 1 0x28 \<and> is_move 1 0xa8 1 0xa8 \<and>
   (\<exists>st1 st2. execute 1 0x28 stack_demo = Inr st1 \<and> execute 1 0xa8 st1 = Inr st2 \<and>
     regs st2 RD = replicate 16 4 \<and> regs st2 RE = replicate 16 5 \<and>
     regs st2 RC = replicate 16 3 \<and>
     regs st1 RD = replicate 14 3 @ replicate 2 4 \<and>
     regs st2 RF = replicate 14 5 @ replicate 2 6 \<and>
     regs st2 RA = replicate 14 3 @ replicate 2 0)"
proof -
  have h: "wf_cpu stack_demo" "is_move 1 0x28 1 0x28" "is_move 1 0xa8 1 0xa8"
    by (simp_all add: wf_cpu_def stack_demo_def power_on_def is_move_def)
  show ?thesis
    using h push_then_pop [OF h] by (simp add: stack_demo_def power_on_def)
qed

text \<open>
  C4, as the claim states it, fails for F: with E all fives and F all sixes, push and
  pop leave fives in the 14 digits of F.
\<close>

theorem push_pop_counterexample:
  "regs_of (thenE (execute 1 0x28 stack_demo) (execute 1 0xa8)) RF =
     Inr (replicate 14 5 @ replicate 2 6) \<and>
   regs stack_demo RF = replicate 16 6"
proof -
  have h: "wf_cpu stack_demo" "is_move 1 0x28 1 0x28" "is_move 1 0xa8 1 0xa8"
    by (simp_all add: wf_cpu_def stack_demo_def power_on_def is_move_def)
  from execute_push [OF h(1,2)] obtain st1 where
    1: "execute 1 0x28 stack_demo = Inr st1" "wf_cpu st1" and
    r1: "regs st1 = (regs stack_demo)
      (RF := take WSIZE (regs stack_demo RE) @ drop WSIZE (regs stack_demo RF),
       RE := take WSIZE (regs stack_demo RD) @ drop WSIZE (regs stack_demo RE),
       RD := take WSIZE (regs stack_demo RC) @ drop WSIZE (regs stack_demo RD))" by blast
  from execute_pop [OF 1(2) h(3)] obtain st2 where
    2: "execute 1 0xa8 st1 = Inr st2" and
    r2: "regs st2 = (regs st1)
      (RA := take WSIZE (regs st1 RD) @ drop WSIZE (regs st1 RA),
       RD := take WSIZE (regs st1 RE) @ drop WSIZE (regs st1 RD),
       RE := take WSIZE (regs st1 RF) @ drop WSIZE (regs st1 RE))" by blast
  show ?thesis
    using 1(1) 2 by (simp add: regs_of_def r1 r2 stack_demo_def power_on_def)
qed

section \<open>Arithmetic on a digit slice\<close>

lemma rest_of_simps [simp]:
  "rest_of (st\<lparr>regs := x\<rparr>) = rest_of st"
  "rest_of (st\<lparr>carry := c\<rparr>) = rest_of st"
  by (simp_all add: rest_of_def)

lemma step_ok_refl: "step_ok lo hi st st"
  by (simp add: step_ok_def unchanged_outside_def)

lemma step_ok_trans: "step_ok lo hi a b \<Longrightarrow> step_ok lo hi b c \<Longrightarrow> step_ok lo hi a c"
  by (simp add: step_ok_def unchanged_outside_def)

lemma step_ok_carry: "step_ok lo hi (st\<lparr>carry := c\<rparr>) st' = step_ok lo hi st st'"
  by (simp add: step_ok_def unchanged_outside_def)

lemma wr_step:
  "i < length (regs s r) \<Longrightarrow> lo \<le> i \<Longrightarrow> i \<le> hi \<Longrightarrow>
   \<exists>s'. wr r i v s = Inr s' \<and> step_ok lo hi s s'"
  by (auto simp: wr_def step_ok_def unchanged_outside_def)

lemma code_cases: "slice_code l = 0 \<or> slice_code l = 1 \<or> slice_code l = 2 \<or> slice_code l = 3 \<or> slice_code l = 4 \<or> slice_code l = 5 \<or> slice_code l = 6 \<or> slice_code l = 7"
  apply (simp add: slice_code_def byte_eq_bits bit_simps)
  apply argo
  done

lemma and15: "(x::byte) AND 0x0f < 16"
proof -
  have "x AND 0x0f \<le> 0x0f" by (rule word_and_le1)
  then show ?thesis by (simp add: word_le_nat_alt word_less_nat_alt)
qed

lemma bitsel_lt: "bitsel h l < 16"
proof -
  have "bitsel h l = bitsel h l AND 0x0f"
    by (simp add: bitsel_def byte_eq_bits bit_simps)
  then show ?thesis using and15 [of "bitsel h l"] by simp
qed

lemma small_byte: "(x::byte) < 16 \<Longrightarrow> x AND 0x0f = x"
  using less_mask_eq [of x 4] by (simp add: mask_eq_exp_minus_1)

lemma small_not_neg: "(x::byte) < 16 \<Longrightarrow> \<not> sint x < 0"
proof -
  assume "x < 16"
  then have "x AND 0x0f = x" by (rule small_byte)
  then have "bit x 7 = bit (x AND 0x0f) 7" by simp
  then have "\<not> bit x 7" by (simp add: bit_simps)
  then show ?thesis using bit_last_iff [of x] by simp
qed

lemma for_loop_inv:
  assumes "I st"
    and "\<And>i s. i \<in> set js \<Longrightarrow> I s \<Longrightarrow> \<exists>s'. body i s = Inr s' \<and> I s'"
  shows "\<exists>st'. for_loop js body st = Inr st' \<and> I st'"
  using assms
proof (induction js arbitrary: st)
  case Nil
  then show ?case by simp
next
  case (Cons j js)
  from Cons.prems obtain s1 where 1: "body j st = Inr s1" "I s1" by fastforce
  from Cons.IH [OF 1(2)] Cons.prems(2) obtain st' where "for_loop js body s1 = Inr st'" "I st'"
    by fastforce
  with 1 show ?case by simp
qed

lemma slice_loop:
  assumes "lens st" and "hi < 16" and "set js \<subseteq> {lo..hi}"
    and "\<And>i s. i \<in> set js \<Longrightarrow> lens s \<Longrightarrow> \<exists>s'. body i s = Inr s' \<and> step_ok lo hi s s'"
  shows "\<exists>st'. for_loop js body st = Inr st' \<and> lens st' \<and> step_ok lo hi st st'"
proof -
  have "\<exists>st'. for_loop js body st = Inr st' \<and> (lens st' \<and> step_ok lo hi st st')"
  proof (rule for_loop_inv)
    show "lens st \<and> step_ok lo hi st st" using assms(1) by (simp add: step_ok_refl)
  next
    fix i s assume i: "i \<in> set js" and s: "lens s \<and> step_ok lo hi st s"
    from assms(4) [OF i] s obtain s' where s': "body i s = Inr s'" "step_ok lo hi s s'" by blast
    from s s'(2) have "lens s'" by (simp add: lens_def step_ok_def)
    with s s' show "\<exists>s'. body i s = Inr s' \<and> lens s' \<and> step_ok lo hi st s'"
      using step_ok_trans by blast
  qed
  then show ?thesis by simp
qed

lemma rd_ok: "lens s \<Longrightarrow> i < 16 \<Longrightarrow> rd r i s = Inr (regs s r ! i)"
  by (simp add: rd_def lens_def)

lemma operand_ok: "lens s \<Longrightarrow> i < 16 \<Longrightarrow> \<exists>v. operand_val x i s = Inr v"
  by (cases x) (simp_all add: operand_val_def rd_ok)

lemma wr_ok:
  "lens s \<Longrightarrow> i < 16 \<Longrightarrow> lo \<le> i \<Longrightarrow> i \<le> hi \<Longrightarrow>
   \<exists>s'. wr r i v s = Inr s' \<and> step_ok lo hi s s'"
  by (rule wr_step) (simp_all add: lens_def)

lemma wr_ok_carry:
  "lens s \<Longrightarrow> i < 16 \<Longrightarrow> lo \<le> i \<Longrightarrow> i \<le> hi \<Longrightarrow>
   \<exists>s'. wr r i v (s\<lparr>carry := c\<rparr>) = Inr s' \<and> step_ok lo hi s s'"
  using wr_ok [of "s\<lparr>carry := c\<rparr>" i lo hi r v] by (simp add: lens_def step_ok_carry)

lemma do_add_carry: "\<exists>res c. do_add u v s = (res, s\<lparr>carry := c\<rparr>)"
  unfolding do_add_def Let_def by (split if_split) blast

lemma do_sub_carry: "\<exists>res c. do_sub u v s = (res, s\<lparr>carry := c\<rparr>)"
  unfolding do_sub_def Let_def by (split if_split) blast

lemma alu_body_ok:
  assumes "f = do_add \<or> f = do_sub" and "lens s" and "i < 16" and "lo \<le> i" and "i \<le> hi"
  shows "\<exists>s'. alu_body f dst x y i s = Inr s' \<and> step_ok lo hi s s'"
proof -
  from operand_ok [OF assms(2,3)] obtain u where u: "operand_val x i s = Inr u" by blast
  from operand_ok [OF assms(2,3)] obtain v where v: "operand_val y i s = Inr v" by blast
  from assms(1) do_add_carry [of u v s] do_sub_carry [of u v s]
  obtain res c where f: "f u v s = (res, s\<lparr>carry := c\<rparr>)" by blast
  from wr_ok_carry [OF assms(2-5)] show ?thesis
    by (simp add: alu_body_def u v f)
qed

lemma copy_body_ok:
  assumes "lens s" and "i < 16" and "lo \<le> i" and "i \<le> hi"
  shows "\<exists>s'. copy_body dst x i s = Inr s' \<and> step_ok lo hi s s'"
proof -
  from operand_ok [OF assms(1,2)] obtain u where u: "operand_val x i s = Inr u" by blast
  from wr_ok [OF assms] show ?thesis by (simp add: copy_body_def u)
qed

lemma exch_body_ok:
  assumes "lens s" and "i < 16" and "lo \<le> i" and "i \<le> hi"
  shows "\<exists>s'. exch_body x y i s = Inr s' \<and> step_ok lo hi s s'"
proof -
  from wr_ok [OF assms, of x "regs s y ! i"] obtain s1 where
    1: "wr x i (regs s y ! i) s = Inr s1" "step_ok lo hi s s1" by blast
  then have "lens s1" using assms(1) by (simp add: lens_def step_ok_def)
  from wr_ok [OF this assms(2-4), of y "regs s x ! i"] obtain s2 where
    2: "wr y i (regs s x ! i) s1 = Inr s2" "step_ok lo hi s1 s2" by blast
  from 1 2 show ?thesis
    using step_ok_trans by (auto simp: exch_body_def rd_ok assms)
qed

lemma test_body_ok:
  assumes "lens s" and "i < 16"
  shows "\<exists>s'. test_body x cv i s = Inr s' \<and> step_ok lo hi s s'"
  using assms by (simp add: test_body_def rd_ok step_ok_def unchanged_outside_def)

lemma move_body_ok:
  assumes "lens s" and "i < 16" and "j < 16" and "lo \<le> i" and "i \<le> hi"
  shows "\<exists>s'. move_body x i j s = Inr s' \<and> step_ok lo hi s s'"
  using wr_ok [OF assms(1,2,4,5)] by (simp add: move_body_def rd_ok assms)

lemma upto_incl_set: "set (upto_incl lo hi) \<subseteq> {unat lo..unat hi}"
  by (auto simp: upto_incl_def)

lemma upto_excl_set: "i \<in> set (upto_excl lo hi) \<Longrightarrow> unat lo \<le> i \<and> Suc i \<le> unat hi"
  by (auto simp: upto_excl_def)

lemma downto_excl_set: "i \<in> set (downto_excl hi lo) \<Longrightarrow> Suc (unat lo) \<le> i \<and> i \<le> unat hi"
  by (auto simp: downto_excl_def split: if_splits)

lemma slice_result_if:
  "(c \<Longrightarrow> slice_result lo hi st a) \<Longrightarrow> (\<not> c \<Longrightarrow> slice_result lo hi st b) \<Longrightarrow>
   slice_result lo hi st (if c then a else b)"
  by simp

lemma slice_result_skip: "lens st \<Longrightarrow> slice_result lo hi st (Inr st)"
  by (simp add: slice_result_def step_ok_refl)

lemma body_ok_alu:
  "f = do_add \<or> f = do_sub \<Longrightarrow> hi < 16 \<Longrightarrow> body_ok lo hi (alu_body f dst x y)"
  unfolding body_ok_def by (intro allI impI alu_body_ok) auto

lemma body_ok_copy: "hi < 16 \<Longrightarrow> body_ok lo hi (copy_body dst x)"
  unfolding body_ok_def by (intro allI impI copy_body_ok) auto

lemma body_ok_exch: "hi < 16 \<Longrightarrow> body_ok lo hi (exch_body x y)"
  unfolding body_ok_def by (intro allI impI exch_body_ok) auto

lemma body_ok_test: "hi < 16 \<Longrightarrow> body_ok lo hi (test_body x cv)"
  unfolding body_ok_def by (intro allI impI test_body_ok) auto

lemma loop_incl_ok:
  assumes "body_ok (unat lo) (unat hi) body" and "lens st" and "unat hi < 16"
  shows "slice_result (unat lo) (unat hi) st (for_loop (upto_incl lo hi) body (st\<lparr>carry := c\<rparr>))"
proof -
  have l: "lens (st\<lparr>carry := c\<rparr>)" using assms(2) by (simp add: lens_def)
  have b: "\<And>i s. i \<in> set (upto_incl lo hi) \<Longrightarrow> lens s \<Longrightarrow>
      \<exists>s'. body i s = Inr s' \<and> step_ok (unat lo) (unat hi) s s'"
    using assms(1) by (auto simp: upto_incl_def body_ok_def)
  from slice_loop [where body = body, OF l assms(3) upto_incl_set b]
  show ?thesis by (simp add: step_ok_carry slice_result_def)
qed

lemma loop_incl_ok0:
  assumes "body_ok (unat lo) (unat hi) body" and "lens st" and "unat hi < 16"
  shows "slice_result (unat lo) (unat hi) st (for_loop (upto_incl lo hi) body st)"
  using loop_incl_ok [where body = body and c = "carry st", OF assms] by simp

lemma shift_right_ok:
  assumes "lens st" and "unat hi < 16" and "unat lo \<le> unat hi"
  shows "slice_result (unat lo) (unat hi) st
           (thenE (for_loop (upto_excl lo hi) (\<lambda>i. move_body x i (i + 1)) st)
                  (wr x (unat hi) 0))"
proof -
  have sub: "set (upto_excl lo hi) \<subseteq> {unat lo..unat hi}" by (auto simp: upto_excl_def)
  have b: "\<And>i s. i \<in> set (upto_excl lo hi) \<Longrightarrow> lens s \<Longrightarrow>
      \<exists>s'. move_body x i (i + 1) s = Inr s' \<and> step_ok (unat lo) (unat hi) s s'"
  proof -
    fix i s assume "i \<in> set (upto_excl lo hi)" and s: "lens s"
    then have i: "unat lo \<le> i" "Suc i \<le> unat hi" using upto_excl_set by blast+
    with assms(2) have "i < 16" "i + 1 < 16" "i \<le> unat hi" by simp_all
    from move_body_ok [OF s this(1,2) i(1) this(3)]
    show "\<exists>s'. move_body x i (i + 1) s = Inr s' \<and> step_ok (unat lo) (unat hi) s s'" .
  qed
  from slice_loop [where body = "\<lambda>i. move_body x i (i + 1)", OF assms(1,2) sub b]
  obtain s1 where 1: "for_loop (upto_excl lo hi) (\<lambda>i. move_body x i (i + 1)) st = Inr s1"
      "lens s1" "step_ok (unat lo) (unat hi) st s1" by blast
  from wr_ok [OF 1(2) assms(2,3)] obtain s2 where
    2: "wr x (unat hi) 0 s1 = Inr s2" "step_ok (unat lo) (unat hi) s1 s2" by blast
  then have "lens s2" using 1(2) by (simp add: lens_def step_ok_def)
  with 1 2 step_ok_trans [OF 1(3) 2(2)] show ?thesis by (simp add: slice_result_def)
qed

lemma shift_left_ok:
  assumes "lens st" and "unat hi < 16" and "unat lo \<le> unat hi"
  shows "slice_result (unat lo) (unat hi) st
           (thenE (for_loop (downto_excl hi lo) (\<lambda>i. move_body x i (i - 1)) st)
                  (wr x (unat lo) 0))"
proof -
  have sub: "set (downto_excl hi lo) \<subseteq> {unat lo..unat hi}"
    by (auto simp: downto_excl_def split: if_splits)
  have b: "\<And>i s. i \<in> set (downto_excl hi lo) \<Longrightarrow> lens s \<Longrightarrow>
      \<exists>s'. move_body x i (i - 1) s = Inr s' \<and> step_ok (unat lo) (unat hi) s s'"
  proof -
    fix i s assume "i \<in> set (downto_excl hi lo)" and s: "lens s"
    then have i: "Suc (unat lo) \<le> i" "i \<le> unat hi" using downto_excl_set by blast+
    with assms(2) have "i < 16" "i - 1 < 16" "unat lo \<le> i" by simp_all
    from move_body_ok [OF s this(1,2) this(3) i(2)]
    show "\<exists>s'. move_body x i (i - 1) s = Inr s' \<and> step_ok (unat lo) (unat hi) s s'" .
  qed
  from slice_loop [where body = "\<lambda>i. move_body x i (i - 1)", OF assms(1,2) sub b]
  obtain s1 where 1: "for_loop (downto_excl hi lo) (\<lambda>i. move_body x i (i - 1)) st = Inr s1"
      "lens s1" "step_ok (unat lo) (unat hi) st s1" by blast
  have "unat lo < 16" using assms(2,3) by simp
  from wr_ok [OF 1(2) this order_refl assms(3)] obtain s2 where
    2: "wr x (unat lo) 0 s1 = Inr s2" "step_ok (unat lo) (unat hi) s1 s2" by blast
  then have "lens s2" using 1(2) by (simp add: lens_def step_ok_def)
  with 1 2 step_ok_trans [OF 1(3) 2(2)] show ?thesis by (simp add: slice_result_def)
qed

lemma arith_op_ok:
  assumes "lens st" and "unat (last_d st) < 16" and "unat (first_d st) \<le> unat (last_d st)"
  shows "slice_result (unat (first_d st)) (unat (last_d st)) st (arith_op op st)"
  unfolding arith_op_def Let_def
  by (intro slice_result_if slice_result_skip loop_incl_ok loop_incl_ok0 shift_right_ok
        shift_left_ok body_ok_alu body_ok_copy body_ok_exch body_ok_test disjI1 disjI2 refl
        assms)

lemma ripple_add_val:
  assumes "length xs = length ys" and "list_all is_digit xs" and "list_all is_digit ys"
    and "cin = 0 \<or> cin = 1"
  shows "case ripple_add xs ys cin of (ds, cout) \<Rightarrow>
           length ds = length xs \<and> list_all is_digit ds \<and> (cout = 0 \<or> cout = 1) \<and>
           dec_val ds + 10 ^ length xs * cout = dec_val xs + dec_val ys + cin"
  using assms
proof (induction xs ys arbitrary: cin rule: list_induct2)
  case Nil
  then show ?case by simp
next
  case (Cons x xs y ys)
  let ?s = "x + y + cin"
  from Cons.prems have d: "is_digit x" "is_digit y" "list_all is_digit xs" "list_all is_digit ys"
    by simp_all
  show ?case
  proof (cases "?s \<ge> 10")
    case True
    from Cons.IH [OF d(3,4), of 1] obtain ds c where
      r: "ripple_add xs ys 1 = (ds, c)" and
      p: "length ds = length xs" "list_all is_digit ds" "c = 0 \<or> c = 1"
         "dec_val ds + 10 ^ length xs * c = dec_val xs + dec_val ys + 1"
      by (cases "ripple_add xs ys 1") auto
    have "is_digit (?s - 10)" using True d Cons.prems(3) by (auto simp: is_digit_def)
    with True r p show ?thesis by (simp add: Let_def algebra_simps)
  next
    case False
    from Cons.IH [OF d(3,4), of 0] obtain ds c where
      r: "ripple_add xs ys 0 = (ds, c)" and
      p: "length ds = length xs" "list_all is_digit ds" "c = 0 \<or> c = 1"
         "dec_val ds + 10 ^ length xs * c = dec_val xs + dec_val ys + 0"
      by (cases "ripple_add xs ys 0") auto
    have "is_digit ?s" using False d Cons.prems(3) by (auto simp: is_digit_def)
    with False r p show ?thesis by (simp add: Let_def algebra_simps)
  qed
qed

lemma dec_val_bound: "list_all is_digit ds \<Longrightarrow> 0 \<le> dec_val ds \<and> dec_val ds < 10 ^ length ds"
  by (induction ds) (auto simp: is_digit_def)

lemma ripple_add_carry:
  assumes "length xs = length ys" and "list_all is_digit xs" and "list_all is_digit ys"
    and "ripple_add xs ys 0 = (ds, cout)"
  shows "(cout = 1) = (dec_val xs + dec_val ys > 10 ^ length xs - 1) \<and>
         dec_val ds = (dec_val xs + dec_val ys) mod 10 ^ length xs \<and> (cout = 0 \<or> cout = 1)"
proof -
  from ripple_add_val [OF assms(1-3), of 0] assms(4) have
    p: "length ds = length xs" "list_all is_digit ds" "cout = 0 \<or> cout = 1"
       "dec_val ds + 10 ^ length xs * cout = dec_val xs + dec_val ys" by simp_all
  from dec_val_bound [OF p(2)] p(1) have b: "0 \<le> dec_val ds" "dec_val ds < 10 ^ length xs"
    by simp_all
  from p(3) show ?thesis
  proof
    assume "cout = 0"
    with p(4) b show ?thesis by simp
  next
    assume c: "cout = 1"
    with p(4) have e: "dec_val xs + dec_val ys = dec_val ds + 10 ^ length xs" by simp
    have "(dec_val ds + 10 ^ length xs) mod 10 ^ length xs = dec_val ds"
      using b by simp
    with c e b show ?thesis by simp
  qed
qed

lemma uint_small: "0 \<le> k \<Longrightarrow> k < 256 \<Longrightarrow> uint (word_of_int k :: byte) = k"
  by (simp add: uint_word_of_int)

lemma do_add_digit:
  assumes "uint u \<le> 9" and "uint v \<le> 9" and "carry s = 0 \<or> carry s = 1"
  shows "\<exists>r c. do_add u v s = (r, s\<lparr>carry := c\<rparr>) \<and> (c = 0 \<or> c = 1) \<and>
           ripple_add (uint u # xs) (uint v # ys) (uint (carry s)) =
             (case ripple_add xs ys (uint c) of (ds, cout) \<Rightarrow> (uint r # ds, cout))"
proof -
  let ?n = "uint u + uint v + uint (carry s)"
  have c: "uint (carry s) = 0 \<or> uint (carry s) = 1" using assms(3) by auto
  have n: "0 \<le> ?n" "?n \<le> 19" using assms(1,2) c by auto
  show ?thesis
  proof (cases "?n \<ge> 10")
    case True
    then have "do_add u v s = (word_of_int (?n - 10), s\<lparr>carry := 1\<rparr>)"
      by (simp add: do_add_def Let_def)
    moreover have "uint (word_of_int (?n - 10) :: byte) = ?n - 10"
      using True n by (intro uint_small) auto
    ultimately show ?thesis using True
      by (intro exI [of _ "word_of_int (?n - 10)"] exI [of _ 1]) (simp add: Let_def)
  next
    case False
    then have "do_add u v s = (word_of_int ?n, s\<lparr>carry := 0\<rparr>)"
      by (simp add: do_add_def Let_def)
    moreover have "uint (word_of_int ?n :: byte) = ?n"
      using False n by (intro uint_small) auto
    ultimately show ?thesis using False
      by (intro exI [of _ "word_of_int ?n"] exI [of _ 0]) (simp add: Let_def)
  qed
qed

lemma slice_Cons: "k \<le> hi \<Longrightarrow> reg_slice k hi xs = xs ! k # reg_slice (Suc k) hi xs"
  by (simp add: reg_slice_def upt_conv_Cons del: upt_Suc)

lemma slice_cong:
  "(\<And>i. lo \<le> i \<Longrightarrow> i \<le> hi \<Longrightarrow> xs ! i = ys ! i) \<Longrightarrow> reg_slice lo hi xs = reg_slice lo hi ys"
  by (simp add: reg_slice_def del: upt_Suc)

lemma step_ok_widen: "step_ok (Suc k) hi a b \<Longrightarrow> step_ok k hi a b"
  by (simp add: step_ok_def unchanged_outside_def)

lemma add_loop:
  assumes "lens s" and "hi < 16"
    and "\<forall>i. k \<le> i \<and> i \<le> hi \<longrightarrow> uint (regs s x ! i) \<le> 9 \<and> uint (regs s y ! i) \<le> 9"
    and "carry s = 0 \<or> carry s = 1"
  shows "\<exists>s'. for_loop [k ..< Suc hi] (alu_body do_add dst (Of x) (Of y)) s = Inr s' \<and>
           lens s' \<and> step_ok k hi s s' \<and>
           (map uint (reg_slice k hi (regs s' dst)), uint (carry s')) =
             ripple_add (map uint (reg_slice k hi (regs s x))) (map uint (reg_slice k hi (regs s y)))
               (uint (carry s))"
  using assms
proof (induction "Suc hi - k" arbitrary: k s)
  case 0
  then have "[k ..< Suc hi] = []" by simp
  moreover have "reg_slice k hi xs = []" for xs :: "byte list" using 0 by (simp add: reg_slice_def)
  ultimately show ?case using 0 by (simp add: step_ok_refl)
next
  case (Suc n)
  then have k: "k \<le> hi" "k < 16" by simp_all
  let ?u = "regs s x ! k" and ?v = "regs s y ! k"
  have uv: "uint ?u \<le> 9" "uint ?v \<le> 9" using Suc.prems(3) k by simp_all
  from do_add_digit [OF uv Suc.prems(4),
      of "map uint (reg_slice (Suc k) hi (regs s x))" "map uint (reg_slice (Suc k) hi (regs s y))"]
  obtain r c where
    f: "do_add ?u ?v s = (r, s\<lparr>carry := c\<rparr>)" and c: "c = 0 \<or> c = 1" and
    rip: "ripple_add (uint ?u # map uint (reg_slice (Suc k) hi (regs s x)))
            (uint ?v # map uint (reg_slice (Suc k) hi (regs s y))) (uint (carry s)) =
          (case ripple_add (map uint (reg_slice (Suc k) hi (regs s x)))
                  (map uint (reg_slice (Suc k) hi (regs s y))) (uint c) of
             (ds, cout) \<Rightarrow> (uint r # ds, cout))" by blast
  define s1 where "s1 = s\<lparr>carry := c, regs := (regs s)(dst := (regs s dst)[k := r])\<rparr>"
  have len: "\<And>q. length (regs s q) = 16" using Suc.prems(1) by (simp add: lens_def)
  have b: "alu_body do_add dst (Of x) (Of y) k s = Inr s1"
    using k by (simp add: alu_body_def operand_val_def rd_def wr_def len f s1_def)
  have l1: "lens s1" using Suc.prems(1) by (simp add: lens_def s1_def)
  have ok1: "step_ok k hi s s1"
    using k by (auto simp: step_ok_def unchanged_outside_def s1_def)
  have same: "\<And>q i. Suc k \<le> i \<Longrightarrow> regs s1 q ! i = regs s q ! i"
    by (simp add: s1_def)
  have d1: "\<forall>i. Suc k \<le> i \<and> i \<le> hi \<longrightarrow>
      uint (regs s1 x ! i) \<le> 9 \<and> uint (regs s1 y ! i) \<le> 9"
    using Suc.prems(3) same by simp
  have c1: "carry s1 = 0 \<or> carry s1 = 1" using c by (simp add: s1_def)
  have m: "n = Suc hi - Suc k" using Suc.hyps(2) by simp
  from Suc.hyps(1) [OF m l1 Suc.prems(2) d1 c1] obtain s' where
    loop: "for_loop [Suc k ..< Suc hi] (alu_body do_add dst (Of x) (Of y)) s1 = Inr s'" and
    l': "lens s'" and ok': "step_ok (Suc k) hi s1 s'" and
    res: "(map uint (reg_slice (Suc k) hi (regs s' dst)), uint (carry s')) =
      ripple_add (map uint (reg_slice (Suc k) hi (regs s1 x)))
        (map uint (reg_slice (Suc k) hi (regs s1 y))) (uint (carry s1))" by blast
  have sx: "reg_slice (Suc k) hi (regs s1 x) = reg_slice (Suc k) hi (regs s x)"
    by (rule slice_cong) (simp add: same)
  have sy: "reg_slice (Suc k) hi (regs s1 y) = reg_slice (Suc k) hi (regs s y)"
    by (rule slice_cong) (simp add: same)
  have "regs s' dst ! k = regs s1 dst ! k"
    using ok' by (simp add: step_ok_def unchanged_outside_def)
  then have rk: "regs s' dst ! k = r" using k by (simp add: s1_def len)
  have all: "for_loop [k ..< Suc hi] (alu_body do_add dst (Of x) (Of y)) s = Inr s'"
    using k b loop by (simp add: upt_conv_Cons del: upt_Suc)
  have ok: "step_ok k hi s s'"
    using step_ok_trans [OF ok1 step_ok_widen [OF ok']] .
  have "(map uint (reg_slice k hi (regs s' dst)), uint (carry s')) =
      ripple_add (map uint (reg_slice k hi (regs s x))) (map uint (reg_slice k hi (regs s y)))
        (uint (carry s))"
  proof -
    have cs1: "carry s1 = c" by (simp add: s1_def)
    have res': "ripple_add (map uint (reg_slice (Suc k) hi (regs s x)))
        (map uint (reg_slice (Suc k) hi (regs s y))) (uint c) =
      (map uint (reg_slice (Suc k) hi (regs s' dst)), uint (carry s'))"
      using res unfolding sx sy cs1 by simp
    show ?thesis
      by (simp only: slice_Cons [OF k(1)] rk list.map rip res' prod.case)
  qed
  with all l' ok show ?case by blast
qed

lemma select_slice_bounds:
  assumes "p_reg st < 16"
  shows "unat (last_d (select_slice (slice_code l) st)) < 16 \<and>
         unat (first_d (select_slice (slice_code l) st)) \<le> unat (last_d (select_slice (slice_code l) st))"
  using code_cases [of l] assms by (auto simp: select_slice_def word_less_nat_alt)

lemma select_slice_simps [simp]:
  "regs (select_slice c st) = regs st"
  "carry (select_slice c st) = carry st"
  "rest_of (select_slice c st\<lparr>carry := k\<rparr>) = rest_of (select_slice c st)"
  by (simp_all add: select_slice_def)

lemma rest_of_fields:
  assumes "rest_of a = rest_of b"
  shows "first_d a = first_d b" "last_d a = last_d b" "p_reg a = p_reg b"
    "s_reg a = s_reg b" "dbuf a = dbuf b"
proof -
  have "first_d (rest_of a) = first_d (rest_of b)" "last_d (rest_of a) = last_d (rest_of b)"
    "p_reg (rest_of a) = p_reg (rest_of b)" "s_reg (rest_of a) = s_reg (rest_of b)"
    "dbuf (rest_of a) = dbuf (rest_of b)"
    by (simp_all add: assms)
  then show "first_d a = first_d b" "last_d a = last_d b" "p_reg a = p_reg b"
    "s_reg a = s_reg b" "dbuf a = dbuf b"
    by (simp_all add: rest_of_def)
qed

lemma select_slice_rest:
  "p_reg (select_slice c st) = p_reg st" "s_reg (select_slice c st) = s_reg st"
  "dbuf (select_slice c st) = dbuf st"
  by (simp_all add: select_slice_def)

lemma do_arith_ok:
  assumes "lens st" and "p_reg st < 16"
  shows "\<exists>st'. do_arith h l st = Inr st' \<and> lens st' \<and>
           unchanged_outside (unat (first_d st')) (unat (last_d st')) st st' \<and>
           rest_of st' = rest_of (select_slice (slice_code l) st)"
proof -
  let ?s1 = "(select_slice (slice_code l) st)\<lparr>carry := 0\<rparr>"
  have l1: "lens ?s1" using assms(1) by (simp add: lens_def)
  have b: "unat (last_d ?s1) < 16" "unat (first_d ?s1) \<le> unat (last_d ?s1)"
    using select_slice_bounds [OF assms(2), of l] by simp_all
  from arith_op_ok [OF l1 b, of "op_code_of h l"] obtain st' where
    r: "arith_op (op_code_of h l) ?s1 = Inr st'" "lens st'"
       "step_ok (unat (first_d ?s1)) (unat (last_d ?s1)) ?s1 st'"
    by (auto simp: slice_result_def)
  from r(3) have rest: "rest_of st' = rest_of (select_slice (slice_code l) st)"
    by (simp add: step_ok_def)
  from rest_of_fields(1,2) [OF rest] have fl:
    "first_d st' = first_d ?s1" "last_d st' = last_d ?s1" by simp_all
  from r(3) have "unchanged_outside (unat (first_d st')) (unat (last_d st')) st st'"
    by (simp add: step_ok_def unchanged_outside_def fl)
  with r rest show ?thesis by (simp add: do_arith_def)
qed

lemma latch_key_cases:
  assumes "0 < length (s_reg st)"
  obtains st0 where "latch_key st = Inr st0" "regs st0 = regs st" "p_reg st0 = p_reg st"
    "length (s_reg st0) = length (s_reg st)" "dbuf st0 = dbuf st" "carry st0 = carry st"
  using assms by (simp add: latch_key_ok)

lemma arith_rule: "(is_arith, do_arith) \<in> set rules"
  by (simp add: rules_def)

text \<open>
  C2. An arithmetic instruction (\<open>L & 3 = 2\<close>) on a well-formed state succeeds, its
  slice \<open>first..last\<close> is the one the slice code selects, and every register, the target
  included, keeps its contents at every index outside \<open>first..last\<close>.
\<close>

theorem arith_changes_only_slice:
  assumes "wf_cpu st" and "is_arith fetch_h fetch_l"
  shows "\<exists>st'. execute fetch_h fetch_l st = Inr st' \<and>
     first_d st' = first_d (select_slice (slice_code fetch_l) st) \<and>
     last_d st' = last_d (select_slice (slice_code fetch_l) st) \<and>
     (\<forall>r i. i < unat (first_d st') \<or> unat (last_d st') < i \<longrightarrow>
        regs st' r ! i = regs st r ! i) \<and>
     (\<forall>r. length (regs st' r) = length (regs st r))"
proof -
  from assms(1) have "0 < length (s_reg st)" by (simp add: wf_cpu_def)
  then obtain st0 where st0: "latch_key st = Inr st0" "regs st0 = regs st"
    "p_reg st0 = p_reg st" by (rule latch_key_cases)
  have l0: "lens st0" "p_reg st0 < 16" using assms(1) st0 by (simp_all add: wf_cpu_def lens_def)
  from do_arith_ok [OF l0, of fetch_h fetch_l] obtain st' where
    r: "do_arith fetch_h fetch_l st0 = Inr st'" "lens st'"
       "unchanged_outside (unat (first_d st')) (unat (last_d st')) st0 st'"
       "rest_of st' = rest_of (select_slice (slice_code fetch_l) st0)" by blast
  have sel: "first_d (select_slice (slice_code fetch_l) st0) =
        first_d (select_slice (slice_code fetch_l) st)"
      "last_d (select_slice (slice_code fetch_l) st0) =
        last_d (select_slice (slice_code fetch_l) st)"
    using code_cases [of fetch_l] st0(3) by (auto simp: select_slice_def)
  have e: "execute fetch_h fetch_l st = Inr st'"
    using execute_rule [OF arith_rule assms(2), of st] st0(1) r(1) by simp
  have len: "\<forall>r. length (regs st' r) = length (regs st r)"
    using r(2) assms(1) by (simp add: lens_def wf_cpu_def)
  from e r(3) rest_of_fields(1,2) [OF r(4)] sel len st0(2) show ?thesis
    by (simp add: unchanged_outside_def)
qed

theorem arith_changes_only_slice_witness:
  "wf_cpu stack_demo \<and> is_arith 0 0xC6 \<and>
   (\<exists>st'. execute 0 0xC6 stack_demo = Inr st' \<and> first_d st' = 3 \<and> last_d st' = 12 \<and>
      regs st' RC ! 2 = 3 \<and> regs st' RC ! 13 = 3)"
proof -
  have h: "wf_cpu stack_demo" "is_arith 0 0xC6"
    by (simp_all add: wf_cpu_def stack_demo_def power_on_def is_arith_def)
  have f: "first_d (select_slice (slice_code 0xC6) stack_demo) = 3"
      "last_d (select_slice (slice_code 0xC6) stack_demo) = 12"
    by (simp_all add: select_slice_def slice_code_def)
  from arith_changes_only_slice [OF h] obtain st' where
    r: "execute 0 0xC6 stack_demo = Inr st'" "first_d st' = 3" "last_d st' = 12"
      "\<forall>r i. i < unat (first_d st') \<or> unat (last_d st') < i \<longrightarrow>
         regs st' r ! i = regs stack_demo r ! i"
    unfolding f by blast
  from r(4) have "regs st' RC ! 2 = regs stack_demo RC ! 2"
      "regs st' RC ! 13 = regs stack_demo RC ! 13"
    by (simp_all add: r(2,3))
  then have "regs st' RC ! 2 = 3" "regs st' RC ! 13 = 3"
    by (simp_all add: stack_demo_def power_on_def)
  with h r show ?thesis by blast
qed

lemma add_class_op:
  assumes "(op, x, y, dst) \<in> {(0x0e, RA, RC, RC), (0x1c, RA, RB, RA), (0x15, RC, RC, RC)}"
  shows "arith_op op s =
    for_loop (upto_incl (first_d s) (last_d s)) (alu_body do_add dst (Of x) (Of y)) s"
  using assms by (auto simp: arith_op_def)

lemma uint_eq_1: "(uint (c::byte) = 1) = (c = 1)"
  unfolding word_uint_eq_iff by simp

lemma uint_eq_0: "(uint (c::byte) = 0) = (c = 0)"
  unfolding word_uint_eq_iff by simp

text \<open>
  C1. An add instruction (op \<open>0x0E\<close>: A + C into C, \<open>0x1C\<close>: A + B into A, \<open>0x15\<close>:
  C + C into C) on a slice whose digits of both operands lie in 0..9 computes the digits
  of the result and the final carry as the digit adder of the specification does,
  starting from carry 0 at the lowest digit; the final carry is 1 if and only if the sum
  of the two operands exceeds \<open>10 ^ (last - first + 1) - 1\<close>, and the digits written are
  those of the sum modulo \<open>10 ^ (last - first + 1)\<close>.
\<close>

theorem add_slice_correct:
  assumes "wf_cpu st" and "is_arith fetch_h fetch_l"
    and "(op_code_of fetch_h fetch_l, x, y, dst) \<in>
           {(0x0e, RA, RC, RC), (0x1c, RA, RB, RA), (0x15, RC, RC, RC)}"
    and "lo = unat (first_d (select_slice (slice_code fetch_l) st))"
    and "hi = unat (last_d (select_slice (slice_code fetch_l) st))"
    and "xs = map uint (reg_slice lo hi (regs st x))"
    and "ys = map uint (reg_slice lo hi (regs st y))"
    and "list_all is_digit xs" and "list_all is_digit ys"
  shows "\<exists>st'. execute fetch_h fetch_l st = Inr st' \<and>
      (map uint (reg_slice lo hi (regs st' dst)), uint (carry st')) = ripple_add xs ys 0 \<and>
      (carry st' = 1) = (dec_val xs + dec_val ys > 10 ^ (hi - lo + 1) - 1) \<and>
      (carry st' = 0 \<or> carry st' = 1) \<and>
      dec_val (map uint (reg_slice lo hi (regs st' dst))) =
        (dec_val xs + dec_val ys) mod 10 ^ (hi - lo + 1)"
proof -
  from assms(1) have "0 < length (s_reg st)" by (simp add: wf_cpu_def)
  then obtain st0 where st0: "latch_key st = Inr st0" "regs st0 = regs st"
    "p_reg st0 = p_reg st" by (rule latch_key_cases)
  define st1 where "st1 = (select_slice (slice_code fetch_l) st0)\<lparr>carry := 0\<rparr>"
  have sel: "first_d (select_slice (slice_code fetch_l) st0) =
        first_d (select_slice (slice_code fetch_l) st)"
      "last_d (select_slice (slice_code fetch_l) st0) =
        last_d (select_slice (slice_code fetch_l) st)"
    using code_cases [of fetch_l] st0(3) by (auto simp: select_slice_def)
  have p: "p_reg st0 < 16" using assms(1) st0(3) by (simp add: wf_cpu_def)
  have fl: "unat (first_d st1) = lo" "unat (last_d st1) = hi"
    by (simp_all add: st1_def sel assms(4,5))
  have b: "hi < 16" "lo \<le> hi"
    using select_slice_bounds [OF p, of fetch_l] by (simp_all add: sel assms(4,5))
  have r1: "regs st1 = regs st" "carry st1 = 0" by (simp_all add: st1_def st0(2))
  have l1: "lens st1" using assms(1) by (simp add: lens_def r1 wf_cpu_def)
  have dig: "\<forall>i. lo \<le> i \<and> i \<le> hi \<longrightarrow>
      uint (regs st1 x ! i) \<le> 9 \<and> uint (regs st1 y ! i) \<le> 9"
    using assms(8,9)
    by (auto simp: assms(6,7) r1 list_all_iff reg_slice_def is_digit_def simp del: upt_Suc)
  have c1: "carry st1 = 0 \<or> carry st1 = 1" by (simp add: r1)
  from add_loop [OF l1 b(1) dig c1, of dst] obtain st' where
    loop: "for_loop [lo ..< Suc hi] (alu_body do_add dst (Of x) (Of y)) st1 = Inr st'" and
    res: "(map uint (reg_slice lo hi (regs st' dst)), uint (carry st')) =
      ripple_add (map uint (reg_slice lo hi (regs st1 x)))
        (map uint (reg_slice lo hi (regs st1 y))) (uint (carry st1))" by blast
  have "do_arith fetch_h fetch_l st0 = Inr st'"
    using loop by (simp add: do_arith_def add_class_op [OF assms(3)] upto_incl_def fl
        flip: st1_def)
  then have e: "execute fetch_h fetch_l st = Inr st'"
    using execute_rule [OF arith_rule assms(2), of st] st0(1) by simp
  have rip: "ripple_add xs ys 0 = (map uint (reg_slice lo hi (regs st' dst)), uint (carry st'))"
    using res by (simp add: r1 assms(6,7))
  have len: "length xs = length ys" "length xs = hi - lo + 1"
    using b by (simp_all add: assms(6,7) reg_slice_def)
  from ripple_add_carry [OF len(1) assms(8,9) rip] have
    f: "(uint (carry st') = 1) = (dec_val xs + dec_val ys > 10 ^ length xs - 1)"
    "dec_val (map uint (reg_slice lo hi (regs st' dst))) =
       (dec_val xs + dec_val ys) mod 10 ^ length xs"
    "uint (carry st') = 0 \<or> uint (carry st') = 1"
    by blast+
  have f1: "(carry st' = 1) = (dec_val xs + dec_val ys > 10 ^ (hi - lo + 1) - 1)"
    using f(1) by (simp only: uint_eq_1 len(2))
  have f2: "dec_val (map uint (reg_slice lo hi (regs st' dst))) =
       (dec_val xs + dec_val ys) mod 10 ^ (hi - lo + 1)"
    using f(2) by (simp only: len(2))
  have f3: "carry st' = 0 \<or> carry st' = 1"
    using f(3) by (simp only: uint_eq_0 uint_eq_1)
  from e rip [symmetric] f1 f2 f3 show ?thesis by (intro exI [of _ st'] conjI)
qed

theorem add_slice_correct_witness:
  "wf_cpu add_demo \<and> is_arith 1 0xC6 \<and> op_code_of 1 0xC6 = 0x0e \<and>
   list_all is_digit (map uint (reg_slice 3 12 (regs add_demo RA))) \<and>
   list_all is_digit (map uint (reg_slice 3 12 (regs add_demo RC))) \<and>
   (\<exists>st'. execute 1 0xC6 add_demo = Inr st' \<and>
      map uint (reg_slice 3 12 (regs st' RC)) = [2, 0, 0, 1, 0, 0, 0, 0, 0, 1] \<and>
      carry st' = 1)"
proof -
  have h: "wf_cpu add_demo" "is_arith 1 0xC6"
    "(op_code_of 1 0xC6, RA, RC, RC) \<in>
           {(0x0e, RA, RC, RC), (0x1c, RA, RB, RA), (0x15, RC, RC, RC)}"
    "3 = unat (first_d (select_slice (slice_code 0xC6) add_demo))"
    "12 = unat (last_d (select_slice (slice_code 0xC6) add_demo))"
    by (simp_all add: wf_cpu_def add_demo_def power_on_def is_arith_def op_code_of_def
        select_slice_def slice_code_def)
  have d: "list_all is_digit (map uint (reg_slice 3 12 (regs add_demo RA)))"
    "list_all is_digit (map uint (reg_slice 3 12 (regs add_demo RC)))"
    by (simp_all add: add_demo_def power_on_def reg_slice_def is_digit_def upt_conv_Cons
        del: upt_Suc)
  have o: "op_code_of 1 0xC6 = 0x0e" by (simp add: op_code_of_def)
  from add_slice_correct [OF h refl refl d] obtain st' where
    e: "execute 1 0xC6 add_demo = Inr st'" and
    r: "(map uint (reg_slice 3 12 (regs st' RC)), uint (carry st')) =
      ripple_add (map uint (reg_slice 3 12 (regs add_demo RA)))
        (map uint (reg_slice 3 12 (regs add_demo RC))) 0" by blast
  have "ripple_add (map uint (reg_slice 3 12 (regs add_demo RA)))
        (map uint (reg_slice 3 12 (regs add_demo RC))) 0 = ([2, 0, 0, 1, 0, 0, 0, 0, 0, 1], 1)"
    by (simp add: add_demo_def power_on_def reg_slice_def upt_conv_Cons del: upt_Suc)
  with r have "map uint (reg_slice 3 12 (regs st' RC)) = [2, 0, 0, 1, 0, 0, 0, 0, 0, 1]"
    "carry st' = 1" by (simp_all add: uint_eq_1)
  with h(1,2) d o e show ?thesis by (intro conjI exI [of _ st'])
qed

section \<open>Register bounds\<close>

lemma safe_Inr [simp]: "safe (Inr st) = wf_cpu st"
  by (simp add: safe_def)

lemma safe_simple:
  assumes "wf_cpu st"
  shows "safe (do_jsb h l st)" "safe (do_return h l st)" "safe (do_rom_select h l st)"
    "safe (do_test_p h l st)" "safe (do_no_display h l st)" "safe (do_toggle_display h l st)"
    "safe (do_branch h l st)"
  using assms
  by (simp_all add: do_jsb_def do_return_def do_rom_select_def do_test_p_def
      do_no_display_def do_toggle_display_def do_branch_def wf_cpu_def bitsel_lt)

lemma safe_status:
  assumes "wf_cpu st"
  shows "safe (do_key_jump h l st)" "safe (do_test_s h l st)" "safe (do_set_s h l st)"
    "safe (do_clear_s h l st)" "safe (do_clear_stati h l st)"
  using assms
  by (simp_all add: do_key_jump_def do_test_s_def do_set_s_def do_clear_s_def
      do_clear_stati_def rd_s_def wr_s_def wf_cpu_def safe_def)

lemma safe_pointer:
  assumes "wf_cpu st"
  shows "safe (do_set_p h l st)" "safe (do_inc_p h l st)" "safe (do_dec_p h l st)"
  using assms
  by (simp_all add: do_set_p_def do_inc_p_def do_dec_p_def wf_cpu_def bitsel_lt and15)

lemma safe_load_const:
  assumes "wf_cpu st"
  shows "safe (do_load_const h l st)"
proof -
  have "unat (p_reg st) < 16" using assms by (simp add: wf_cpu_def word_less_nat_alt)
  then show ?thesis
    using assms by (simp add: do_load_const_def wr_def wf_cpu_def and15)
qed

lemma safe_moves:
  assumes "wf_cpu st"
  shows "safe (do_c_m_exchange h l st)" "safe (do_push h l st)" "safe (do_pop h l st)"
    "safe (do_m_to_c h l st)" "safe (do_rotate_down h l st)"
  using assms
  by (simp_all add: do_c_m_exchange_def do_push_def do_pop_def do_m_to_c_def
      do_rotate_down_def snapshot_def memcpy_def memcpy_from_def wf_cpu_def)

lemma clear_body_wf:
  assumes "wf_cpu s" and "i < 16"
  shows "\<exists>s'. clear_body i s = Inr s' \<and> wf_cpu s'"
  using assms by (simp add: clear_body_def wr_def wf_cpu_def)

lemma safe_clear_regs:
  assumes "wf_cpu st"
  shows "safe (do_clear_regs h l st)"
proof -
  have "\<exists>st'. for_loop [0 ..< WSIZE] clear_body st = Inr st' \<and> wf_cpu st'"
    using assms by (intro for_loop_inv) (auto intro: clear_body_wf)
  then show ?thesis by (auto simp: do_clear_regs_def)
qed

lemma safe_arith:
  assumes "wf_cpu st"
  shows "safe (do_arith h l st)"
proof -
  have l: "lens st" "p_reg st < 16" using assms by (simp_all add: wf_cpu_def lens_def)
  from do_arith_ok [OF l, of h l] obtain st' where
    r: "do_arith h l st = Inr st'" "lens st'"
       "rest_of st' = rest_of (select_slice (slice_code l) st)" by blast
  from rest_of_fields(3-5) [OF r(3)] have
    "p_reg st' = p_reg st" "s_reg st' = s_reg st" "dbuf st' = dbuf st"
    by (simp_all add: select_slice_rest)
  with r(1,2) assms show ?thesis by (simp add: wf_cpu_def lens_def)
qed

lemma rules_safe:
  assumes "r \<in> set rules" and "wf_cpu st"
  shows "safe (snd r h l st)"
  using assms(1) safe_simple [OF assms(2)] safe_status [OF assms(2)] safe_pointer [OF assms(2)]
    safe_load_const [OF assms(2)] safe_moves [OF assms(2)] safe_clear_regs [OF assms(2)]
    safe_arith [OF assms(2)]
  by (auto simp: rules_def)

lemma power_on_wf: "wf_cpu power_on"
  by (simp add: wf_cpu_def power_on_def)

lemma latch_key_wf:
  assumes "wf_cpu st"
  shows "\<exists>st0. latch_key st = Inr st0 \<and> wf_cpu st0"
  using assms by (simp add: latch_key_ok wf_cpu_def)

lemma execute_safe:
  assumes "wf_cpu st"
  shows "safe (execute h l st)"
proof -
  from latch_key_wf [OF assms] obtain st0 where st0: "latch_key st = Inr st0" "wf_cpu st0"
    by blast
  show ?thesis
  proof (cases "find (\<lambda>r. fst r h l) rules")
    case None
    with st0 show ?thesis by (simp add: execute_decode)
  next
    case (Some r)
    then have "r \<in> set rules" by (auto simp: find_Some_iff)
    from rules_safe [OF this st0(2)] Some st0(1) show ?thesis by (simp add: execute_decode)
  qed
qed

text \<open>
  C10. From a well-formed state (registers of 16 entries, pointer below 16) no
  instruction reads or writes a register outside its 16 entries, and the state after
  the instruction is again well formed: the pointer is masked to 4 bits wherever it is
  set, incremented or decremented. The slices \<open>P..P\<close> and \<open>0..P\<close> are therefore in bounds
  also for a pointer of 14 or 15. The only access that can leave its array is that of
  a status instruction to the 12-entry status array.
\<close>

theorem register_access_in_bounds:
  assumes "wf_cpu st"
  shows "execute fetch_h fetch_l st \<noteq> Inl RegIndex \<and>
    (\<forall>e. execute fetch_h fetch_l st = Inl e \<longrightarrow> e = StatusIndex) \<and>
    (\<forall>st'. execute fetch_h fetch_l st = Inr st' \<longrightarrow> wf_cpu st')"
  using execute_safe [OF assms, of fetch_h fetch_l]
  by (cases "execute fetch_h fetch_l st") (auto simp: safe_def)

theorem register_access_in_bounds_witness:
  "wf_cpu p15_demo \<and> execute 1 0xD2 p15_demo \<noteq> Inl RegIndex \<and>
   regs_of (execute 0 0xD8 p15_demo) RC = Inr (replicate 15 0 @ [3]) \<and>
   execute 0 0xD8 p15_demo \<noteq> Inl RegIndex"
proof -
  have h: "wf_cpu p15_demo" by (simp add: wf_cpu_def p15_demo_def power_on_def)
  have "regs_of (execute 0 0xD8 p15_demo) RC = Inr (replicate 15 0 @ [3])"
    by code_simp
  with h register_access_in_bounds [OF h, of 1 "0xD2"] register_access_in_bounds [OF h, of 0 "0xD8"]
  show ?thesis by simp
qed

section \<open>The key flag\<close>










section \<open>The display of the sign\<close>

lemma no_dbuf_simps [simp]: "no_dbuf (st\<lparr>dbuf := x\<rparr>) = no_dbuf st"
  by (simp add: no_dbuf_def)









section \<open>The frame of a microcycle\<close>

lemma shell_part_rest: "rest_of a = rest_of b \<Longrightarrow> shell_part a = shell_part b"
proof -
  assume "rest_of a = rest_of b"
  then have "shell_part (rest_of a) = shell_part (rest_of b)" by simp
  then show ?thesis by (simp add: shell_part_def rest_of_def)
qed

lemma shell_simple:
  "do_jsb h l st = Inr st' \<Longrightarrow> shell_part st' = shell_part st"
  "do_return h l st = Inr st' \<Longrightarrow> shell_part st' = shell_part st"
  "do_rom_select h l st = Inr st' \<Longrightarrow> shell_part st' = shell_part st"
  "do_key_jump h l st = Inr st' \<Longrightarrow> shell_part st' = shell_part st"
  "do_test_s h l st = Inr st' \<Longrightarrow> shell_part st' = shell_part st"
  "do_set_s h l st = Inr st' \<Longrightarrow> shell_part st' = shell_part st"
  "do_clear_s h l st = Inr st' \<Longrightarrow> shell_part st' = shell_part st"
  "do_clear_stati h l st = Inr st' \<Longrightarrow> shell_part st' = shell_part st"
  "do_test_p h l st = Inr st' \<Longrightarrow> shell_part st' = shell_part st"
  "do_set_p h l st = Inr st' \<Longrightarrow> shell_part st' = shell_part st"
  "do_inc_p h l st = Inr st' \<Longrightarrow> shell_part st' = shell_part st"
  "do_dec_p h l st = Inr st' \<Longrightarrow> shell_part st' = shell_part st"
  "do_load_const h l st = Inr st' \<Longrightarrow> shell_part st' = shell_part st"
  "do_no_display h l st = Inr st' \<Longrightarrow> shell_part st' = shell_part st"
  "do_toggle_display h l st = Inr st' \<Longrightarrow> shell_part st' = shell_part st"
  "do_branch h l st = Inr st' \<Longrightarrow> shell_part st' = shell_part st"
  by (auto simp: do_jsb_def do_return_def do_rom_select_def do_key_jump_def do_test_s_def
      do_set_s_def do_clear_s_def do_clear_stati_def do_test_p_def
      do_set_p_def do_inc_p_def do_dec_p_def do_load_const_def do_no_display_def
      do_toggle_display_def do_branch_def rd_s_def wr_s_def wr_def thenE_eq_Inr shell_part_def
      split: if_splits)

lemma shell_moves:
  assumes "wf_cpu st"
  shows "do_c_m_exchange h l st = Inr st' \<Longrightarrow> shell_part st' = shell_part st"
    "do_push h l st = Inr st' \<Longrightarrow> shell_part st' = shell_part st"
    "do_pop h l st = Inr st' \<Longrightarrow> shell_part st' = shell_part st"
    "do_m_to_c h l st = Inr st' \<Longrightarrow> shell_part st' = shell_part st"
    "do_rotate_down h l st = Inr st' \<Longrightarrow> shell_part st' = shell_part st"
  using assms
  by (auto simp: do_c_m_exchange_def do_push_def do_pop_def do_m_to_c_def
      do_rotate_down_def snapshot_def memcpy_def memcpy_from_def wf_cpu_def shell_part_def)

lemma shell_clear_regs:
  assumes "wf_cpu st" and "do_clear_regs h l st = Inr st'"
  shows "shell_part st' = shell_part st"
proof -
  have "\<exists>s'. for_loop [0 ..< WSIZE] clear_body st = Inr s' \<and>
      (wf_cpu s' \<and> shell_part s' = shell_part st)"
  proof (rule for_loop_inv)
    show "wf_cpu st \<and> shell_part st = shell_part st" using assms(1) by simp
  next
    fix i s assume "i \<in> set [0 ..< WSIZE]" and "wf_cpu s \<and> shell_part s = shell_part st"
    then show "\<exists>s'. clear_body i s = Inr s' \<and> wf_cpu s' \<and> shell_part s' = shell_part st"
      by (auto simp: clear_body_def wr_def wf_cpu_def shell_part_def)
  qed
  with assms(2) show ?thesis by (auto simp: do_clear_regs_def)
qed

lemma shell_arith:
  assumes "wf_cpu st" and "do_arith h l st = Inr st'"
  shows "shell_part st' = shell_part st"
proof -
  have l: "lens st" "p_reg st < 16" using assms by (simp_all add: wf_cpu_def lens_def)
  from do_arith_ok [OF l, of h l] assms(2) have
    "rest_of st' = rest_of (select_slice (slice_code l) st)" by auto
  from shell_part_rest [OF this] show ?thesis by (simp add: select_slice_def shell_part_def)
qed

lemma rules_shell:
  assumes "r \<in> set rules" and "wf_cpu st" and "snd r h l st = Inr st'"
  shows "shell_part st' = shell_part st"
  using assms(1,3) shell_simple [of h l st st'] shell_moves [OF assms(2), of h l st']
    shell_clear_regs [OF assms(2), of h l st'] shell_arith [OF assms(2), of h l st']
  by (auto simp: rules_def)

lemma execute_shell:
  assumes "wf_cpu st" and "execute h l st = Inr st'"
  shows "shell_part st' = shell_part st"
proof -
  from latch_key_wf [OF assms(1)] obtain st0 where st0: "latch_key st = Inr st0" "wf_cpu st0"
    by blast
  have len: "0 < length (s_reg st)" using assms(1) by (simp add: wf_cpu_def)
  have s0: "shell_part st0 = shell_part st"
    using st0(1) by (auto simp: latch_key_ok [OF len] shell_part_def split: if_splits)
  show ?thesis
  proof (cases "find (\<lambda>r. fst r h l) rules")
    case None
    with st0 assms(2) s0 show ?thesis by (simp add: execute_decode)
  next
    case (Some r)
    then have "r \<in> set rules" by (auto simp: find_Some_iff)
    moreover from Some assms(2) st0(1) have "snd r h l st0 = Inr st'"
      by (simp add: execute_decode)
    ultimately show ?thesis using rules_shell [OF _ st0(2)] s0 by simp
  qed
qed

lemma except_display_simps [simp]:
  "except_display (st\<lparr>dbuf := x\<rparr>) = except_display st"
  "except_display (st\<lparr>display_update := b\<rparr>) = except_display st"
  "except_display (st\<lparr>islock := c\<rparr>) = except_display st"
  "except_display (st\<lparr>count := n\<rparr>) = except_display st"
  by (simp_all add: except_display_def)

lemma except_display_buf_view: "buf_view a = buf_view b \<Longrightarrow> except_display a = except_display b"
proof -
  assume "buf_view a = buf_view b"
  then have "fst (buf_view a) = fst (buf_view b)" by simp
  then have "a\<lparr>dbuf := []\<rparr> = b\<lparr>dbuf := []\<rparr>" by (simp add: buf_view_def)
  then have "except_display (a\<lparr>dbuf := []\<rparr>) = except_display (b\<lparr>dbuf := []\<rparr>)" by simp
  then show ?thesis by simp
qed

lemma buf_view_len: "buf_view a = buf_view b \<Longrightarrow> length (dbuf a) = length (dbuf b)"
proof -
  assume "buf_view a = buf_view b"
  then have "snd (buf_view a) = snd (buf_view b)" by simp
  then show ?thesis by (simp add: buf_view_def)
qed

lemma wr_buf_frame: "wr_buf i v s = Inr s' \<Longrightarrow> buf_view s' = buf_view s"
  by (auto simp: wr_buf_def buf_view_def split: if_splits)

lemma for_loop_pres:
  assumes "\<And>i s s'. body i s = Inr s' \<Longrightarrow> Q s' = Q s" and "for_loop js body st = Inr st'"
  shows "Q st' = Q st"
  using assms(2)
proof (induction js arbitrary: st)
  case Nil
  then show ?case by simp
next
  case (Cons j js)
  then obtain s1 where "body j st = Inr s1" "for_loop js body s1 = Inr st'"
    by (auto simp: thenE_eq_Inr)
  with Cons.IH assms(1) show ?case by metis
qed

lemma message_frame: "message n st = Inr st' \<Longrightarrow> buf_view st' = buf_view st"
  unfolding message_def
  by (erule for_loop_pres [rotated])
     (auto simp: message_body_def Let_def thenE_eq_Inr dest: wr_buf_frame)

lemma show_digit_frame:
  assumes "show_digit i ps = Inr ps'"
  shows "buf_view (snd ps') = buf_view (snd ps)"
proof -
  obtain pos s where ps: "ps = (pos, s)" by (cases ps)
  from assms obtain s1 and bi :: byte and q where
    1: "wr_buf pos 0 s = Inr s1" and
    2: "(if bi \<ge> 8 then thenE (wr_buf pos 0 s1) (\<lambda>st2. Inr (pos + 1, st2))
         else if i = 13 then
           thenE (rd RA i s1) (\<lambda>ai.
             if ai \<ge> 8 then thenE (wr_buf pos SEG_MINUS s1) (\<lambda>st2. Inr (pos + 1, st2))
             else Inr (pos + 1, s1))
         else
           thenE (rd RA i s1) (\<lambda>ai.
           thenE (table_read digit DigitIndex (unat ai)) (\<lambda>g.
           thenE (wr_buf pos g s1) (\<lambda>st2. Inr (pos + 1, st2))))) = Inr q" and
    3: "(case q of (pos', st3) \<Rightarrow>
           if bi = 2 then
             thenE (rd_buf (pos' - 1) st3) (\<lambda>v.
             thenE (wr_buf (pos' - 1) (v OR SEG_DOT) st3) (\<lambda>st4. Inr (pos', st4)))
           else Inr (pos', st3)) = Inr ps'"
    unfolding ps show_digit_def prod.case thenE_eq_Inr by blast
  have a: "buf_view s1 = buf_view s" using 1 by (rule wr_buf_frame)
  have b: "buf_view (snd q) = buf_view s1"
    using 2 by (auto simp: thenE_eq_Inr split: if_splits dest: wr_buf_frame)
  have c: "buf_view (snd ps') = buf_view (snd q)"
    using 3 by (cases q) (auto simp: thenE_eq_Inr split: if_splits dest: wr_buf_frame)
  from a b c ps show ?thesis by simp
qed

lemma show_exponent_frame: "show_exponent st = Inr st' \<Longrightarrow> buf_view st' = buf_view st"
  unfolding show_exponent_def thenE_eq_Inr
  by (auto simp: thenE_eq_Inr split: if_splits dest!: wr_buf_frame)

lemma show_stack_frame:
  assumes "show_stack st = Inr st'"
  shows "buf_view st' = buf_view st"
proof -
  from assms obtain ps where
    1: "for_loop (rev [6 ..< WSIZE]) show_digit (0, st) = Inr ps" and
    2: "show_exponent (snd ps) = Inr st'"
    unfolding show_stack_def thenE_eq_Inr by blast
  have "buf_view (snd ps) = buf_view (snd (0::nat, st))"
    using show_digit_frame 1 by (rule for_loop_pres)
  with show_exponent_frame [OF 2] show ?thesis by simp
qed

lemma thenE_InrD: "thenE m k = Inr y \<Longrightarrow> \<exists>x. m = Inr x \<and> k x = Inr y"
  by (cases m) simp_all

lemma thenE_retD: "thenE m (\<lambda>x. Inr (f x)) = Inr y \<Longrightarrow> \<exists>x. m = Inr x \<and> y = f x"
  by (cases m) auto

lemma printbuf_frame: "printbuf st = Inr st' \<Longrightarrow> buf_view st' = buf_view st"
proof (cases "fg st = 1 \<or> fg st = 2")
  case True
  assume "printbuf st = Inr st'"
  with True have "wr_buf 0 (if fg st = 1 then SEG_HIGHLINE else SEG_LOWLINE) st = Inr st'"
    by (simp add: printbuf_def)
  then show ?thesis by (rule wr_buf_frame)
next
  case False
  assume "printbuf st = Inr st'"
  with False show ?thesis by (simp add: printbuf_def)
qed

lemma printscreen_frame:
  assumes "printscreen st = Inr st'"
  shows "except_display st' = except_display st"
proof -
  from thenE_InrD [OF assms [unfolded printscreen_def]] obtain s1 where
    s1: "(if msgnr st \<noteq> 0 then message (msgnr st) st
        else if darkscreen st then
          (if DIGITS \<le> length (dbuf st)
           then Inr (st\<lparr>dbuf := replicate DIGITS 0 @ drop DIGITS (dbuf st)\<rparr>)
           else Inl BufIndex)
        else show_stack st) = Inr s1 \<and>
      thenE (printbuf s1) (\<lambda>st2. Inr (st2\<lparr>display_update := False\<rparr>)) = Inr st'" ..
  note 1 = s1 [THEN conjunct1]
  from thenE_retD [OF s1 [THEN conjunct2]] obtain s2 where
    s2: "printbuf s1 = Inr s2 \<and> st' = s2\<lparr>display_update := False\<rparr>" ..
  note 2 = s2 [THEN conjunct1] and 3 = s2 [THEN conjunct2]
  have a: "buf_view s1 = buf_view st"
  proof (cases "msgnr st \<noteq> 0")
    case True
    with 1 have "message (msgnr st) st = Inr s1" by simp
    then show ?thesis by (rule message_frame)
  next
    case False
    note m = False
    show ?thesis
    proof (cases "darkscreen st")
      case True
      with m 1 have "(if DIGITS \<le> length (dbuf st)
           then Inr (st\<lparr>dbuf := replicate DIGITS 0 @ drop DIGITS (dbuf st)\<rparr>)
           else Inl BufIndex) = Inr s1" by simp
      then have "DIGITS \<le> length (dbuf st) \<and>
          s1 = st\<lparr>dbuf := replicate DIGITS 0 @ drop DIGITS (dbuf st)\<rparr>"
        by (cases "DIGITS \<le> length (dbuf st)") simp_all
      then show ?thesis by (simp add: buf_view_def)
    next
      case False
      with m 1 have "show_stack st = Inr s1" by simp
      then show ?thesis by (rule show_stack_frame)
    qed
  qed
  have b: "buf_view s2 = buf_view s1" using 2 by (rule printbuf_frame)
  from a b have "buf_view s2 = buf_view st" by simp
  then have "except_display s2 = except_display st"
    by (rule except_display_buf_view)
  with 3 show ?thesis by simp
qed

lemma printscreen_len:
  assumes "printscreen st = Inr st'"
  shows "length (dbuf st') = length (dbuf st)"
proof -
  from thenE_InrD [OF assms [unfolded printscreen_def]] obtain s1 where
    s1: "(if msgnr st \<noteq> 0 then message (msgnr st) st
        else if darkscreen st then
          (if DIGITS \<le> length (dbuf st)
           then Inr (st\<lparr>dbuf := replicate DIGITS 0 @ drop DIGITS (dbuf st)\<rparr>)
           else Inl BufIndex)
        else show_stack st) = Inr s1 \<and>
      thenE (printbuf s1) (\<lambda>st2. Inr (st2\<lparr>display_update := False\<rparr>)) = Inr st'" ..
  note 1 = s1 [THEN conjunct1]
  from thenE_retD [OF s1 [THEN conjunct2]] obtain s2 where
    s2: "printbuf s1 = Inr s2 \<and> st' = s2\<lparr>display_update := False\<rparr>" ..
  note 2 = s2 [THEN conjunct1] and 3 = s2 [THEN conjunct2]
  have a: "buf_view s1 = buf_view st"
  proof (cases "msgnr st \<noteq> 0")
    case True
    with 1 have "message (msgnr st) st = Inr s1" by simp
    then show ?thesis by (rule message_frame)
  next
    case False
    note m = False
    show ?thesis
    proof (cases "darkscreen st")
      case True
      with m 1 have "(if DIGITS \<le> length (dbuf st)
           then Inr (st\<lparr>dbuf := replicate DIGITS 0 @ drop DIGITS (dbuf st)\<rparr>)
           else Inl BufIndex) = Inr s1" by simp
      then have "DIGITS \<le> length (dbuf st) \<and>
          s1 = st\<lparr>dbuf := replicate DIGITS 0 @ drop DIGITS (dbuf st)\<rparr>"
        by (cases "DIGITS \<le> length (dbuf st)") simp_all
      then show ?thesis by (simp add: buf_view_def)
    next
      case False
      with m 1 have "show_stack st = Inr s1" by simp
      then show ?thesis by (rule show_stack_frame)
    qed
  qed
  have b: "buf_view s2 = buf_view s1" using 2 by (rule printbuf_frame)
  from a b have "buf_view s2 = buf_view st" by simp
  then have "length (dbuf s2) = length (dbuf st)" by (rule buf_view_len)
  with 3 show ?thesis by simp
qed

lemma update_display_frame:
  assumes "update_display st = Inr st'"
  shows "except_display st' = except_display st \<and> length (dbuf st') = length (dbuf st)"
proof (cases "display_enable st")
  case True
  with assms show ?thesis by (auto simp: update_display_def)
next
  case False
  note e = False
  show ?thesis
  proof (cases "display_update st")
    case True
    with e assms have "thenE (printscreen st) (\<lambda>st1. Inr (st1\<lparr>islock := False, count := 0\<rparr>)) = Inr st'"
      by (simp add: update_display_def)
    from thenE_retD [OF this] obtain s1 where
      s1: "printscreen st = Inr s1 \<and> st' = s1\<lparr>islock := False, count := 0\<rparr>" ..
    with printscreen_frame [of st s1] printscreen_len [of st s1] show ?thesis by simp
  next
    case False
    with e assms show ?thesis by (auto simp: update_display_def)
  qed
qed

lemma except_display_fields:
  assumes "except_display a = except_display b"
  shows "isrun a = isrun b" "memp a = memp b" "key a = key b" "oldkey a = oldkey b"
    "fg a = fg b" "key_code a = key_code b" "msgnr a = msgnr b"
    "regs a = regs b" "s_reg a = s_reg b" "p_reg a = p_reg b"
proof -
  have "isrun (except_display a) = isrun (except_display b)"
    "memp (except_display a) = memp (except_display b)"
    "key (except_display a) = key (except_display b)"
    "oldkey (except_display a) = oldkey (except_display b)"
    "fg (except_display a) = fg (except_display b)"
    "key_code (except_display a) = key_code (except_display b)"
    "msgnr (except_display a) = msgnr (except_display b)"
    "regs (except_display a) = regs (except_display b)"
    "s_reg (except_display a) = s_reg (except_display b)"
    "p_reg (except_display a) = p_reg (except_display b)"
    by (simp_all add: assms)
  then show "isrun a = isrun b" "memp a = memp b" "key a = key b" "oldkey a = oldkey b"
    "fg a = fg b" "key_code a = key_code b" "msgnr a = msgnr b"
    "regs a = regs b" "s_reg a = s_reg b" "p_reg a = p_reg b"
    by (simp_all add: except_display_def)
qed

lemma process_rom_shell:
  assumes "wf_cpu st" and "process_rom st = Inr st'"
  shows "isrun st' = isrun st \<and> memp st' = memp st \<and> key st' = key st \<and>
         oldkey st' = oldkey st \<and> fg st' = fg st"
proof -
  define st2 where "st2 = (if pc st = 191 \<and> offset st = 0 then st\<lparr>msgnr := MSGERROR\<rparr> else st)
      \<lparr>prevCarry := carry (if pc st = 191 \<and> offset st = 0 then st\<lparr>msgnr := MSGERROR\<rparr> else st),
        carry := 0\<rparr>"
  have "process_rom st = thenE (fetch st2) (\<lambda>hl. case hl of (fetch_h, fetch_l) \<Rightarrow>
         thenE (execute fetch_h fetch_l (st2\<lparr>pc := pc st2 + 1\<rparr>)) update_display)"
    unfolding process_rom_def Let_def st2_def ..
  with assms(2) have "thenE (fetch st2) (\<lambda>hl. case hl of (fetch_h, fetch_l) \<Rightarrow>
         thenE (execute fetch_h fetch_l (st2\<lparr>pc := pc st2 + 1\<rparr>)) update_display) = Inr st'"
    by simp
  from thenE_InrD [OF this] obtain hl where
    hl: "fetch st2 = Inr hl \<and> (case hl of (fetch_h, fetch_l) \<Rightarrow>
         thenE (execute fetch_h fetch_l (st2\<lparr>pc := pc st2 + 1\<rparr>)) update_display) = Inr st'" ..
  then have "thenE (execute (fst hl) (snd hl) (st2\<lparr>pc := pc st2 + 1\<rparr>)) update_display = Inr st'"
    by (simp add: case_prod_beta)
  from thenE_InrD [OF this] obtain s4 where
    s4: "execute (fst hl) (snd hl) (st2\<lparr>pc := pc st2 + 1\<rparr>) = Inr s4 \<and>
      update_display s4 = Inr st'" ..
  note e = s4 [THEN conjunct1] and u = s4 [THEN conjunct2]
  have w: "wf_cpu (st2\<lparr>pc := pc st2 + 1\<rparr>)" using assms(1) by (simp add: st2_def wf_cpu_def)
  from execute_shell [OF w e] have
    "isrun s4 = isrun st \<and> memp s4 = memp st \<and> key s4 = key st \<and>
         oldkey s4 = oldkey st \<and> fg s4 = fg st"
    by (simp add: shell_part_def st2_def)
  with except_display_fields(1-5) [OF update_display_frame [OF u, THEN conjunct1]] show ?thesis
    by simp
qed

end
